theory Spec2Isabelle
  imports Complex_Main "HOL-Library.Word"
begin

unbundle bit_operations_syntax

section \<open>Machine integers\<close>

text \<open>
  Addresses, tags, latencies and the hit and miss counters are \<open>uint64_t\<close> in the
  source and 64-bit words here; the bit widths handed to the address decoder are
  \<open>uint8_t\<close>.  Set and way numbers index \<open>std::vector\<close>s and key the replacement
  policies' hash maps: they are natural numbers here (a vector index is always far
  below \<open>2 ^ 64\<close>), read off the decoded index with \<open>unat\<close>.
\<close>

type_synonym u64 = "64 word"
type_synonym u8 = "8 word"

section \<open>Address decoding (address.cpp)\<close>

text \<open>
  \<open>constexpr size_t ADDRESS_WIDTH = std::numeric_limits<uint64_t>::digits\<close>.
\<close>

definition ADDRESS_WIDTH :: nat where
  "ADDRESS_WIDTH = 64"

text \<open>
  A C++ shift of a 64-bit value by 64 or more is undefined behaviour.  The two shift
  operators are therefore partial: \<open>None\<close> stands for a shift the language leaves
  undefined.  (HOL's own \<open>drop_bit\<close> and \<open>push_bit\<close> are total and would hide it.)
\<close>

definition shr :: "u64 \<Rightarrow> nat \<Rightarrow> u64 option" where
  "shr x n = (if n < ADDRESS_WIDTH then Some (drop_bit n x) else None)"

definition shl :: "u64 \<Rightarrow> nat \<Rightarrow> u64 option" where
  "shl x n = (if n < ADDRESS_WIDTH then Some (push_bit n x) else None)"

text \<open>
  \<open>MemoryAddress::getTag\<close>: \<open>totalLowerBits\<close> is a \<open>uint16_t\<close> sum of two
  \<open>uint8_t\<close>, at most 510, so the sum is exact.
\<close>

definition getTag :: "u64 \<Rightarrow> u8 \<Rightarrow> u8 \<Rightarrow> u64 option" where
  "getTag a blockOffsetBits indexBits =
     (let totalLowerBits = unat blockOffsetBits + unat indexBits in
      if totalLowerBits \<ge> ADDRESS_WIDTH then Some 0
      else shr a totalLowerBits)"

text \<open>\<open>MemoryAddress::getIndex\<close>, with its three guards in the source's order.\<close>

definition getIndex :: "u64 \<Rightarrow> u8 \<Rightarrow> u8 \<Rightarrow> u64 option" where
  "getIndex a blockOffsetBits indexBits =
     (if indexBits = 0 then Some 0
      else if unat blockOffsetBits \<ge> ADDRESS_WIDTH then Some 0
      else (case shr a (unat blockOffsetBits) of
              None \<Rightarrow> None
            | Some shifted_address \<Rightarrow>
                if unat indexBits \<ge> ADDRESS_WIDTH then Some shifted_address
                else (case shl 1 (unat indexBits) of
                        None \<Rightarrow> None
                      | Some m \<Rightarrow> Some (shifted_address AND (m - 1)))))"

text \<open>\<open>MemoryAddress::getBlockOffset\<close>.\<close>

definition getBlockOffset :: "u64 \<Rightarrow> u8 \<Rightarrow> u64 option" where
  "getBlockOffset a blockOffsetBits =
     (if blockOffsetBits = 0 then Some 0
      else if unat blockOffsetBits \<ge> ADDRESS_WIDTH then Some a
      else (case shl 1 (unat blockOffsetBits) of
              None \<Rightarrow> None
            | Some m \<Rightarrow> Some (a AND (m - 1))))"

subsection \<open>The earlier decoder\<close>

text \<open>
  The sources also hold an earlier \<open>address.cpp\<close>, whose three functions shift without
  any guard: \<open>address_ >> (blockOffsetBits + indexBits)\<close>,
  \<open>(address_ >> blockOffsetBits) & ((1ULL << indexBits) - 1)\<close> and
  \<open>address_ & ((1ULL << blockOffsetBits) - 1)\<close>.  The sum of the two \<open>uint8_t\<close>
  widths is computed in \<open>int\<close> and is exact.
\<close>

definition getTag_unguarded :: "u64 \<Rightarrow> u8 \<Rightarrow> u8 \<Rightarrow> u64 option" where
  "getTag_unguarded a blockOffsetBits indexBits =
     shr a (unat blockOffsetBits + unat indexBits)"

definition getIndex_unguarded :: "u64 \<Rightarrow> u8 \<Rightarrow> u8 \<Rightarrow> u64 option" where
  "getIndex_unguarded a blockOffsetBits indexBits =
     (case shl 1 (unat indexBits) of
        None \<Rightarrow> None
      | Some m \<Rightarrow>
          (case shr a (unat blockOffsetBits) of
             None \<Rightarrow> None
           | Some shifted \<Rightarrow> Some (shifted AND (m - 1))))"

definition getBlockOffset_unguarded :: "u64 \<Rightarrow> u8 \<Rightarrow> u64 option" where
  "getBlockOffset_unguarded a blockOffsetBits =
     (case shl 1 (unat blockOffsetBits) of
        None \<Rightarrow> None
      | Some m \<Rightarrow> Some (a AND (m - 1)))"

section \<open>Cache entries and configuration (cache.hpp)\<close>

record CacheEntry =
  valid :: bool
  dirty :: bool
  tag :: u64

text \<open>The default constructor \<open>CacheEntry()\<close>; \<open>CacheEntry::reset\<close> restores it.\<close>

definition CacheEntry_new :: CacheEntry where
  "CacheEntry_new = \<lparr>valid = False, dirty = False, tag = 0\<rparr>"

datatype InclusionPolicy = Inclusive | Exclusive | NINE

datatype Organization = DirectMapped | SetAssociative | FullyAssociative

datatype AccessType = Read | Write

record CacheConfig =
  organization :: Organization
  size_bytes :: u64
  blockSize :: u64
  associativity :: u64
  policy :: string
  accessLatency :: u64
  writeBack :: bool
  writeAllocate :: bool
  level :: u64
  inclusionPolicy :: InclusionPolicy

text \<open>
  \<open>CacheConfig::getNumSets\<close> and \<open>getNumWays\<close>.  The divisions are unsigned 64-bit
  divisions and the product \<open>blockSize * associativity\<close> wraps.  A zero divisor is
  undefined behaviour in C++ (a trap on the usual targets); HOL's \<open>div\<close> returns 0
  there, so the constructor \<open>Cache_new\<close> below, which is the first to evaluate
  them, tests the divisor and reports the trap.
\<close>

definition getNumSets :: "CacheConfig \<Rightarrow> u64" where
  "getNumSets cfg =
     (if organization cfg = FullyAssociative then 1
      else if organization cfg = DirectMapped then size_bytes cfg div blockSize cfg
      else size_bytes cfg div (blockSize cfg * associativity cfg))"

definition getNumWays :: "CacheConfig \<Rightarrow> u64" where
  "getNumWays cfg =
     (if organization cfg = FullyAssociative then size_bytes cfg div blockSize cfg
      else if organization cfg = DirectMapped then 1
      else associativity cfg)"

text \<open>
  The loop \<open>while (temp > 1) { temp >>= 1; count++; }\<close> shared by
  \<open>getBlockOffsetBits\<close> and \<open>getIndexBits\<close>.
\<close>

function shift_count :: "u64 \<Rightarrow> nat \<Rightarrow> nat" where
  "shift_count temp count =
     (if 1 < temp then shift_count (drop_bit 1 temp) (count + 1) else count)"
  by pat_completeness auto
termination
proof (relation "measure (\<lambda>(temp, count). unat temp)")
  show "wf (measure (\<lambda>(temp, count). unat temp))"
    by simp
next
  fix temp :: u64 and count :: nat
  assume "1 < temp"
  then have "1 < unat temp"
    by (simp add: word_less_nat_alt)
  then have "unat temp div 2 < unat temp"
    by simp
  then show "((drop_bit 1 temp, count + 1), (temp, count)) \<in> measure (\<lambda>(temp, count). unat temp)"
    by (simp add: drop_bit_eq_div unat_div)
qed

declare shift_count.simps [simp del]

definition getBlockOffsetBits :: "CacheConfig \<Rightarrow> u8" where
  "getBlockOffsetBits cfg = of_nat (shift_count (blockSize cfg) 0)"

definition getIndexBits :: "CacheConfig \<Rightarrow> u8" where
  "getIndexBits cfg =
     (if organization cfg = FullyAssociative then 0
      else of_nat (shift_count (getNumSets cfg) 0))"

record CacheResult =
  hit :: bool
  latency :: u64
  writeBack_res :: bool
  evictedAddress :: "u64 option"
  evictedEntry :: "CacheEntry option"

section \<open>Replacement policies (cache_policy.hpp, cache_policy.cpp)\<close>

text \<open>
  All three policies, and the older queue-based FIFO, search for the first unused way
  with the same loop \<open>for (way = 0; way < numWays; ++way) if (unused) return way;\<close>.
  When the loop finds nothing the function goes on with the code after it.
\<close>

definition firstUnused :: "(nat \<Rightarrow> bool) \<Rightarrow> nat \<Rightarrow> nat option" where
  "firstUnused used numWays = find (\<lambda>way. \<not> used way) [0..<numWays]"

text \<open>
  The policy classes, one constructor each, holding the class's members as maps from
  the set number.
  \<^item> \<open>LRUPolicy\<close>: \<open>lruList_\<close>, most recently used way first.  The second member
    \<open>lruPositions_\<close> stores, for every way of the list, the iterator to its node; the
    two are only updated together, so "the way has a position" is "the way is in the
    list" and erasing at the position removes that way.
  \<^item> \<open>FIFOPolicy\<close>: \<open>circularCounters_\<close> and \<open>usedWays_\<close>.
  \<^item> \<open>RandomPolicy\<close>: \<open>usedWays_\<close>, and the values the random device will deliver to
    the following calls.  The source creates a fresh \<open>std::mt19937\<close> from
    \<open>std::random_device\<close> in each call; the model reads the next draw from this
    list (0 once it is exhausted), so every sequence of outcomes is some list.
\<close>

datatype ReplacementPolicy =
    LRUPolicy "nat \<rightharpoonup> nat list"
  | FIFOPolicy "nat \<rightharpoonup> nat" "nat \<rightharpoonup> nat set"
  | RandomPolicy "nat \<rightharpoonup> bool list" "nat list"

text \<open>\<open>onAccess(set, way)\<close> of the three classes.\<close>

fun onAccess :: "ReplacementPolicy \<Rightarrow> nat \<Rightarrow> nat \<Rightarrow> ReplacementPolicy" where
  "onAccess (LRUPolicy lruList) s way =
     (case lruList s of
        None \<Rightarrow> LRUPolicy (lruList(s \<mapsto> [way]))
      | Some l \<Rightarrow>
          LRUPolicy (lruList(s \<mapsto> way # (if way \<in> set l then remove1 way l else l))))"
| "onAccess (FIFOPolicy circularCounters usedWays) s way =
     (let counters = (if circularCounters s = None then circularCounters(s \<mapsto> 0)
                      else circularCounters);
          used = (case usedWays s of None \<Rightarrow> {} | Some u \<Rightarrow> u)
      in FIFOPolicy counters
           (usedWays(s \<mapsto> (if way \<notin> used then insert way used else used))))"
| "onAccess (RandomPolicy usedWays draws) s way =
     (let used = (case usedWays s of None \<Rightarrow> replicate 32 False | Some u \<Rightarrow> u)
      in RandomPolicy
           (usedWays(s \<mapsto> (if way < length used then used[way := True] else used)))
           draws)"

text \<open>
  \<open>getVictim(set, numWays)\<close> of the three classes: the victim and the policy's new
  state.  \<open>uniform_int_distribution(0, numWays - 1)\<close> yields a value below
  \<open>numWays\<close>: the draw is reduced into that range.
\<close>

fun getVictim :: "ReplacementPolicy \<Rightarrow> nat \<Rightarrow> nat \<Rightarrow> nat \<times> ReplacementPolicy" where
  "getVictim (LRUPolicy lruList) s numWays =
     (case lruList s of
        None \<Rightarrow> (0, LRUPolicy lruList)
      | Some l \<Rightarrow>
          (case (if length l < numWays then firstUnused (\<lambda>way. way \<in> set l) numWays
                 else None) of
             Some way \<Rightarrow> (way, LRUPolicy lruList)
           | None \<Rightarrow> (last l, LRUPolicy lruList)))"
| "getVictim (FIFOPolicy circularCounters usedWays) s numWays =
     (let counters = (if circularCounters s = None then circularCounters(s \<mapsto> 0)
                      else circularCounters);
          used = (case usedWays s of None \<Rightarrow> {} | Some u \<Rightarrow> u);
          usedWays' = usedWays(s \<mapsto> used)
      in case (if card used < numWays then firstUnused (\<lambda>way. way \<in> used) numWays
               else None) of
           Some way \<Rightarrow> (way, FIFOPolicy counters usedWays')
         | None \<Rightarrow>
             (let victim = the (counters s)
              in (victim, FIFOPolicy (counters(s \<mapsto> (victim + 1) mod numWays)) usedWays')))"
| "getVictim (RandomPolicy usedWays draws) s numWays =
     (let used0 = (case usedWays s of None \<Rightarrow> replicate numWays False | Some u \<Rightarrow> u);
          used = (if length used0 < numWays
                  then used0 @ replicate (numWays - length used0) False else used0)
      in case firstUnused (\<lambda>way. used ! way) numWays of
           Some way \<Rightarrow> (way, RandomPolicy (usedWays(s \<mapsto> used[way := True])) draws)
         | None \<Rightarrow>
             (case draws of
                [] \<Rightarrow> (0, RandomPolicy (usedWays(s \<mapsto> used)) [])
              | d # ds \<Rightarrow> (d mod numWays, RandomPolicy (usedWays(s \<mapsto> used)) ds)))"

text \<open>
  \<open>createPolicy(name)\<close>: unknown names default to LRU.  The second argument is the
  random device's future output, used by \<open>RandomPolicy\<close> only.
\<close>

definition createPolicy :: "string \<Rightarrow> nat list \<Rightarrow> ReplacementPolicy" where
  "createPolicy name draws =
     (if name = ''LRU'' then LRUPolicy Map.empty
      else if name = ''FIFO'' then FIFOPolicy Map.empty Map.empty
      else if name = ''RANDOM'' then RandomPolicy Map.empty draws
      else LRUPolicy Map.empty)"

subsection \<open>The queue-based FIFO policy (the other FIFOPolicy of the sources)\<close>

text \<open>
  The sources hold a second \<open>FIFOPolicy\<close> whose only member is \<open>fifoQueue_\<close>, the
  ways of each set in insertion order.  \<open>onAccess\<close> appends a way on its first
  insertion; \<open>getVictim\<close> returns the first unused way while the queue is shorter
  than \<open>numWays\<close> and \<open>fifoQueue_[set].front()\<close> afterwards.  Neither function ever
  removes an element from the queue.
\<close>

definition FIFOQueue_onAccess :: "(nat \<rightharpoonup> nat list) \<Rightarrow> nat \<Rightarrow> nat \<Rightarrow> (nat \<rightharpoonup> nat list)" where
  "FIFOQueue_onAccess fifoQueue s way =
     (case fifoQueue s of
        None \<Rightarrow> fifoQueue(s \<mapsto> [way])
      | Some queue \<Rightarrow>
          (if way \<notin> set queue then fifoQueue(s \<mapsto> queue @ [way]) else fifoQueue))"

definition FIFOQueue_getVictim :: "(nat \<rightharpoonup> nat list) \<Rightarrow> nat \<Rightarrow> nat \<Rightarrow> nat \<times> (nat \<rightharpoonup> nat list)" where
  "FIFOQueue_getVictim fifoQueue s numWays =
     (let queue = (case fifoQueue s of None \<Rightarrow> [] | Some q \<Rightarrow> q)
      in case (if fifoQueue s = None \<or> length queue < numWays
               then firstUnused (\<lambda>way. fifoQueue s \<noteq> None \<and> way \<in> set queue) numWays
               else None) of
           Some way \<Rightarrow> (way, fifoQueue)
         | None \<Rightarrow> (hd queue, fifoQueue(s \<mapsto> queue)))"

section \<open>One cache level (cache.cpp)\<close>

record Cache =
  config :: CacheConfig
  policy_st :: ReplacementPolicy
  cacheEntries :: "CacheEntry list list"
  hits :: u64
  misses :: u64

text \<open>
  The constructor \<open>Cache::Cache(const CacheConfig&)\<close>.  It creates the policy, asks
  the configuration for the number of sets and ways and resizes the entry matrix
  (\<open>Cache_init\<close> is the object so built).  It checks nothing and throws nothing; the
  only way it can fail is the integer division by zero inside \<open>getNumSets\<close> or
  \<open>getNumWays\<close>, reported here as \<open>DivisionByZero\<close>.
  (\<open>OutOfRange\<close> is the \<open>std::out_of_range\<close> of \<open>CacheHierarchy::getCacheLevel\<close>.)
\<close>

datatype error = DivisionByZero | OutOfRange

definition zeroDivisor :: "CacheConfig \<Rightarrow> bool" where
  "zeroDivisor cfg =
     (if organization cfg = SetAssociative then blockSize cfg * associativity cfg = 0
      else blockSize cfg = 0)"

definition Cache_init :: "CacheConfig \<Rightarrow> nat list \<Rightarrow> Cache" where
  "Cache_init cfg draws =
     \<lparr>config = cfg,
      policy_st = createPolicy (policy cfg) draws,
      cacheEntries = replicate (unat (getNumSets cfg))
                       (replicate (unat (getNumWays cfg)) CacheEntry_new),
      hits = 0,
      misses = 0\<rparr>"

definition Cache_new :: "CacheConfig \<Rightarrow> nat list \<Rightarrow> error + Cache" where
  "Cache_new cfg draws =
     (if zeroDivisor cfg then Inl DivisionByZero else Inr (Cache_init cfg draws))"

text \<open>
  \<open>Cache::getSetAndTag\<close>.  The decoder's results are unwrapped with \<open>the\<close>: were a
  shift undefined, the set and tag would be unspecified values.
\<close>

definition getSetAndTag :: "Cache \<Rightarrow> u64 \<Rightarrow> nat \<times> u64" where
  "getSetAndTag c a =
     (let blockOffsetBits = getBlockOffsetBits (config c);
          indexBits = getIndexBits (config c)
      in (unat (the (getIndex a blockOffsetBits indexBits)),
          the (getTag a blockOffsetBits indexBits)))"

text \<open>\<open>Cache::findEntry\<close>: the first way of the set that is valid and holds the tag.\<close>

definition findEntry :: "Cache \<Rightarrow> nat \<Rightarrow> u64 \<Rightarrow> nat option" where
  "findEntry c s t =
     find (\<lambda>way. valid (cacheEntries c ! s ! way) \<and> tag (cacheEntries c ! s ! way) = t)
       [0..<length (cacheEntries c ! s)]"

text \<open>
  The address of a block from its tag and set:
  \<open>(tag << (blockOffsetBits + indexBits)) | (set << blockOffsetBits)\<close>, the expression
  of \<open>Cache::reconstructAddress\<close> and of both branches of \<open>Cache::allocateEntry\<close>.
\<close>

definition blockAddress :: "CacheConfig \<Rightarrow> nat \<Rightarrow> u64 \<Rightarrow> u64" where
  "blockAddress cfg s t =
     (let blockOffsetBits = getBlockOffsetBits cfg;
          indexBits = getIndexBits cfg
      in the (shl t (unat blockOffsetBits + unat indexBits))
           OR the (shl (of_nat s) (unat blockOffsetBits)))"

definition reconstructAddress :: "Cache \<Rightarrow> nat \<Rightarrow> u64 \<Rightarrow> u64" where
  "reconstructAddress c s t = blockAddress (config c) s t"

definition setEntry :: "Cache \<Rightarrow> nat \<Rightarrow> nat \<Rightarrow> CacheEntry \<Rightarrow> CacheEntry list list" where
  "setEntry c s way e = (cacheEntries c)[s := (cacheEntries c ! s)[way := e]]"

text \<open>\<open>Cache::allocateEntry\<close>.\<close>

definition allocateEntry :: "Cache \<Rightarrow> nat \<Rightarrow> u64 \<Rightarrow> AccessType \<Rightarrow> CacheResult \<times> Cache" where
  "allocateEntry c s t ty =
     (let result0 = \<lparr>hit = False, latency = 0, writeBack_res = False,
                      evictedAddress = None, evictedEntry = None\<rparr>;
          (way, pol) = getVictim (policy_st c) s (length (cacheEntries c ! s));
          victimEntry = cacheEntries c ! s ! way;
          result =
            (if valid victimEntry then
               (if writeBack (config c) \<and> dirty victimEntry
                then result0\<lparr>evictedEntry := Some victimEntry,
                             writeBack_res := True,
                             evictedAddress := Some (blockAddress (config c) s (tag victimEntry))\<rparr>
                else result0\<lparr>evictedEntry := Some victimEntry,
                             evictedAddress := Some (blockAddress (config c) s (tag victimEntry))\<rparr>)
             else result0);
          newEntry = victimEntry\<lparr>valid := True, tag := t,
                                  dirty := (ty = Write \<and> writeBack (config c))\<rparr>
      in (result,
          c\<lparr>cacheEntries := setEntry c s way newEntry,
            policy_st := onAccess pol s way\<rparr>))"

text \<open>
  \<open>Cache::access\<close>.  On a miss that allocates, the result takes over the latency, the
  write-back flag and the evicted address of \<open>allocateEntry\<close>'s result, field by
  field; \<open>evictedEntry\<close> is not among the fields copied.
\<close>

definition Cache_access :: "Cache \<Rightarrow> u64 \<Rightarrow> AccessType \<Rightarrow> CacheResult \<times> Cache" where
  "Cache_access c a ty =
     (let result0 = \<lparr>hit = False, latency = accessLatency (config c), writeBack_res = False,
                      evictedAddress = None, evictedEntry = None\<rparr>;
          (s, t) = getSetAndTag c a
      in case findEntry c s t of
           Some way \<Rightarrow>
             (result0\<lparr>hit := True\<rparr>,
              c\<lparr>hits := hits c + 1,
                policy_st := onAccess (policy_st c) s way,
                cacheEntries :=
                  (if ty = Write \<and> writeBack (config c)
                   then setEntry c s way ((cacheEntries c ! s ! way)\<lparr>dirty := True\<rparr>)
                   else cacheEntries c)\<rparr>)
         | None \<Rightarrow>
             (let c1 = c\<lparr>misses := misses c + 1\<rparr>
              in if ty = Read \<or> (ty = Write \<and> writeAllocate (config c)) then
                   (let (allocResult, c2) = allocateEntry c1 s t ty
                    in (result0\<lparr>latency := latency result0 + latency allocResult,
                                writeBack_res := writeBack_res allocResult,
                                evictedAddress := evictedAddress allocResult\<rparr>,
                        c2))
                 else (result0, c1)))"

text \<open>\<open>Cache::contains\<close>, \<open>Cache::getEntry\<close> and \<open>Cache::invalidateEntry\<close>.\<close>

definition contains :: "Cache \<Rightarrow> u64 \<Rightarrow> bool" where
  "contains c a = (let (s, t) = getSetAndTag c a in findEntry c s t \<noteq> None)"

definition getEntry :: "Cache \<Rightarrow> u64 \<Rightarrow> CacheEntry option" where
  "getEntry c a =
     (let (s, t) = getSetAndTag c a
      in case findEntry c s t of
           Some way \<Rightarrow> Some (cacheEntries c ! s ! way)
         | None \<Rightarrow> None)"

definition invalidateEntry :: "Cache \<Rightarrow> u64 \<Rightarrow> Cache" where
  "invalidateEntry c a =
     (let (s, t) = getSetAndTag c a
      in case findEntry c s t of
           Some way \<Rightarrow> c\<lparr>cacheEntries := setEntry c s way CacheEntry_new\<rparr>
         | None \<Rightarrow> c)"

text \<open>
  \<open>Cache::forceEntry\<close>.  When no way holds the tag a victim is chosen; a valid victim
  is copied into \<open>evictedEntry\<close>, but \<open>evictedAddress\<close> (and the write-back flag) is
  set only when the victim is valid and dirty.
\<close>

definition forceEntry :: "Cache \<Rightarrow> u64 \<Rightarrow> CacheEntry \<Rightarrow> AccessType \<Rightarrow> CacheResult \<times> Cache" where
  "forceEntry c a e ty =
     (let result0 = \<lparr>hit = False, latency = accessLatency (config c), writeBack_res = False,
                      evictedAddress = None, evictedEntry = None\<rparr>;
          (s, t) = getSetAndTag c a;
          (way, result, pol) =
            (case findEntry c s t of
               Some w \<Rightarrow> (w, result0, policy_st c)
             | None \<Rightarrow>
                 (let (w, pol) = getVictim (policy_st c) s (length (cacheEntries c ! s));
                      victimEntry = cacheEntries c ! s ! w;
                      result1 = (if valid victimEntry
                                 then result0\<lparr>evictedEntry := Some victimEntry\<rparr>
                                 else result0);
                      result2 = (if valid victimEntry \<and> dirty victimEntry
                                 then result1\<lparr>writeBack_res := True,
                                              evictedAddress :=
                                                Some (reconstructAddress c s (tag victimEntry))\<rparr>
                                 else result1)
                  in (w, result2, pol)));
          e1 = e\<lparr>tag := t, valid := True\<rparr>;
          e2 = (if ty = Write \<and> writeBack (config c) then e1\<lparr>dirty := True\<rparr> else e1)
      in (result,
          c\<lparr>cacheEntries := setEntry c s way e2,
            policy_st := onAccess pol s way\<rparr>))"

section \<open>The cache hierarchy (cache.cpp)\<close>

record EvictionTracker =
  hasEviction :: bool
  tracker_address :: u64
  tracker_entry :: CacheEntry

record CacheHierarchy =
  caches :: "Cache list"
  evictionTracker :: EvictionTracker

text \<open>A default-constructed hierarchy, and \<open>CacheHierarchy::addCacheLevel\<close>.\<close>

definition CacheHierarchy_new :: CacheHierarchy where
  "CacheHierarchy_new =
     \<lparr>caches = [],
      evictionTracker = \<lparr>hasEviction = False, tracker_address = 0,
                           tracker_entry = CacheEntry_new\<rparr>\<rparr>"

definition addCacheLevel :: "CacheHierarchy \<Rightarrow> Cache \<Rightarrow> CacheHierarchy" where
  "addCacheLevel h c = h\<lparr>caches := caches h @ [c]\<rparr>"

text \<open>
  The block of \<open>CacheHierarchy::access\<close> that stores an eviction from L1 in the
  tracker; it occurs twice, after the L1 access and after the force-install of a
  promoted block.  When the result carries an evicted address but no evicted entry,
  a clean valid entry with the address's L1 tag is made up.
\<close>

definition recordEviction :: "Cache \<Rightarrow> CacheResult \<Rightarrow> EvictionTracker \<Rightarrow> EvictionTracker" where
  "recordEviction l1Cache r trk =
     (case evictedAddress r of
        None \<Rightarrow> trk
      | Some evictedAddr \<Rightarrow>
          \<lparr>hasEviction = True,
           tracker_address = evictedAddr,
           tracker_entry =
             (case evictedEntry r of
                Some e \<Rightarrow> e
              | None \<Rightarrow>
                  (let (s, t) = getSetAndTag l1Cache evictedAddr
                   in CacheEntry_new\<lparr>valid := True, tag := t\<rparr>))\<rparr>)"

text \<open>
  The loop \<open>for (i = 1; i < caches_.size(); ++i)\<close> that searches the lower levels,
  over the list of its indices; it stops (\<open>break\<close>) at the first level that hits.  The
  state is the vector of caches, the tracker, the latency so far and \<open>hitInCache\<close>.
\<close>

fun searchLevels :: "nat list \<Rightarrow> u64 \<Rightarrow> AccessType \<Rightarrow>
    Cache list \<times> EvictionTracker \<times> u64 \<times> bool \<Rightarrow> Cache list \<times> EvictionTracker \<times> u64 \<times> bool" where
  "searchLevels [] a ty st = st"
| "searchLevels (i # rest) a ty (cs, trk, totalLatency, hitInCache) =
     (let (result, ci) = Cache_access (cs ! i) a ty;
          cs1 = cs[i := ci];
          totalLatency1 = totalLatency + latency result
      in if hit result then
           (if inclusionPolicy (config ci) = Exclusive then
              (case getEntry ci a of
                 Some e \<Rightarrow>
                   (let cs2 = cs1[i := invalidateEntry ci a];
                        (l1EvictResult, l1) = forceEntry (cs2 ! 0) a e ty;
                        cs3 = cs2[0 := l1]
                    in (cs3, recordEviction l1 l1EvictResult trk, totalLatency1, True))
               | None \<Rightarrow> (cs1, trk, totalLatency1, True))
            else (cs1, trk, totalLatency1, True))
         else searchLevels rest a ty (cs1, trk, totalLatency1, hitInCache))"

text \<open>\<open>CacheHierarchy::backinvalidate\<close>.\<close>

definition backinvalidate :: "Cache list \<Rightarrow> u64 \<Rightarrow> nat \<Rightarrow> Cache list" where
  "backinvalidate cs a fromLevel =
     fold (\<lambda>i cs'. cs'[i := invalidateEntry (cs' ! i) a]) [0..<fromLevel] cs"

text \<open>
  The second loop over the lower levels, run after a miss in every level when L2 is
  not exclusive: each inclusive level is accessed once more, and an address evicted by
  that access is back-invalidated in the levels above.
\<close>

fun allocateInclusive :: "nat list \<Rightarrow> u64 \<Rightarrow> AccessType \<Rightarrow>
    Cache list \<times> u64 \<Rightarrow> Cache list \<times> u64" where
  "allocateInclusive [] a ty st = st"
| "allocateInclusive (i # rest) a ty (cs, totalLatency) =
     (if inclusionPolicy (config (cs ! i)) = Inclusive then
        (let (result, ci) = Cache_access (cs ! i) a ty;
             cs1 = cs[i := ci];
             cs2 = (case evictedAddress result of
                      Some evicted \<Rightarrow> backinvalidate cs1 evicted i
                    | None \<Rightarrow> cs1)
         in allocateInclusive rest a ty (cs2, totalLatency + latency result))
      else allocateInclusive rest a ty (cs, totalLatency))"

text \<open>
  \<open>CacheHierarchy::access\<close>, returning the pair (total latency, hit in any cache) and
  the hierarchy's new state.  The source first reads L1's entry for the address when L2
  is exclusive (\<open>wasInL1\<close>, \<open>l1EntryBeforeAccess\<close>); the two locals are never used
  afterwards and the read changes nothing, so the model leaves them out.
\<close>

definition CacheHierarchy_access :: "CacheHierarchy \<Rightarrow> u64 \<Rightarrow> AccessType \<Rightarrow> (u64 \<times> bool) \<times> CacheHierarchy" where
  "CacheHierarchy_access h a ty =
     (let trk0 = (evictionTracker h)\<lparr>hasEviction := False\<rparr>;
          cs0 = caches h;
          hasExclusiveL2 = (length cs0 > 1 \<and> inclusionPolicy (config (cs0 ! 1)) = Exclusive);
          (l1Result, l1) = Cache_access (cs0 ! 0) a ty;
          cs1 = cs0[0 := l1];
          totalLatency = 0 + latency l1Result;
          trk1 = (if hasExclusiveL2 then recordEviction l1 l1Result trk0 else trk0)
      in if hit l1Result then
           ((totalLatency, True), \<lparr>caches = cs1, evictionTracker = trk1\<rparr>)
         else
           (let (cs2, trk2, totalLatency2, hitInCache) =
                  searchLevels [1..<length cs1] a ty (cs1, trk1, totalLatency, False);
                (cs3, totalLatency3) =
                  (if \<not> hitInCache \<and>
                      (ty = Read \<or> (ty = Write \<and> writeAllocate (config (cs2 ! 0))))
                   then
                     (if hasExclusiveL2 then
                        (if length cs2 > 1
                         then (cs2[1 := invalidateEntry (cs2 ! 1) a], totalLatency2)
                         else (cs2, totalLatency2))
                      else allocateInclusive [1..<length cs2] a ty (cs2, totalLatency2))
                   else (cs2, totalLatency2));
                cs4 =
                  (if hasExclusiveL2 \<and> hasEviction trk2 then
                     (if tracker_address trk2 \<noteq> a
                      then cs3[1 := snd (forceEntry (cs3 ! 1) (tracker_address trk2)
                                           (tracker_entry trk2) Write)]
                      else cs3)
                   else cs3)
            in ((totalLatency3, hitInCache), \<lparr>caches = cs4, evictionTracker = trk2\<rparr>)))"

text \<open>A trace of accesses, each started when the one before has returned.\<close>

fun runTrace :: "CacheHierarchy \<Rightarrow> (u64 \<times> AccessType) list \<Rightarrow> CacheHierarchy" where
  "runTrace h [] = h"
| "runTrace h ((a, ty) # rest) = runTrace (snd (CacheHierarchy_access h a ty)) rest"

text \<open>The same for a single cache, collecting the hit flags of the accesses.\<close>

fun Cache_run :: "Cache \<Rightarrow> (u64 \<times> AccessType) list \<Rightarrow> bool list \<times> Cache" where
  "Cache_run c [] = ([], c)"
| "Cache_run c ((a, ty) # rest) =
     (let (r, c1) = Cache_access c a ty;
          (outcomes, c2) = Cache_run c1 rest
      in (hit r # outcomes, c2))"

section \<open>Main memory and the simulation loop (memory.cpp, metrics.cpp)\<close>

record MainMemory =
  memLatency :: u64
  reads :: u64
  writes :: u64

definition MainMemory_access :: "MainMemory \<Rightarrow> u64 \<Rightarrow> AccessType \<Rightarrow> u64 \<times> MainMemory" where
  "MainMemory_access m a ty =
     (if ty = Read then (memLatency m, m\<lparr>reads := reads m + 1\<rparr>)
      else (memLatency m, m\<lparr>writes := writes m + 1\<rparr>))"

text \<open>
  The body of the trace loop of \<open>PerformanceAnalyzer::runTests\<close> (and of \<open>main\<close>): the
  hierarchy is accessed, and main memory only when no cache level hit.
\<close>

definition processAccess :: "CacheHierarchy \<times> MainMemory \<Rightarrow> u64 \<Rightarrow> AccessType \<Rightarrow>
    u64 \<times> CacheHierarchy \<times> MainMemory" where
  "processAccess hm a ty =
     (let ((lat, hitInCache), h) = CacheHierarchy_access (fst hm) a ty
      in if \<not> hitInCache then
           (let (l, m) = MainMemory_access (snd hm) a ty in (lat + l, h, m))
         else (lat, h, snd hm))"

section \<open>The AMAT of the metrics collector (metrics.cpp)\<close>

text \<open>
  \<open>PerformanceAnalyzer::collectMetrics\<close> computes the AMAT in \<open>double\<close>; the model
  computes the same expression in exact real arithmetic.  Each level is given by its
  hit rate (\<open>Cache::getHitRate\<close>) and its access latency (a \<open>uint64_t\<close> converted to
  \<open>double\<close>), L1 first.  The loop over the levels from L2 on carries the probability
  \<open>missPathProbability\<close> of reaching the level and the running total.
\<close>

fun amatLevels :: "(real \<times> nat) list \<Rightarrow> real \<Rightarrow> real \<Rightarrow> real \<times> real" where
  "amatLevels [] missPathProbability totalAMAT = (missPathProbability, totalAMAT)"
| "amatLevels ((hitRate, accessLat) # rest) missPathProbability totalAMAT =
     (let missRate = 1 - hitRate;
          levelContribution = missPathProbability * real accessLat
      in amatLevels rest (missPathProbability * missRate) (totalAMAT + levelContribution))"

text \<open>
  With no cache level, \<open>hierarchy.getCacheLevel(0)\<close> throws \<open>std::out_of_range\<close>.
\<close>

definition totalAMAT :: "(real \<times> nat) list \<Rightarrow> nat \<Rightarrow> error + real" where
  "totalAMAT stats memoryLatency =
     (case stats of
        [] \<Rightarrow> Inl OutOfRange
      | (l1HitRate, l1Latency) # rest \<Rightarrow>
          (let l1MissRate = 1 - l1HitRate;
               (missPathProbability, total) = amatLevels rest l1MissRate (real l1Latency);
               memoryContribution = missPathProbability * real memoryLatency
           in Inr (total + memoryContribution)))"

section \<open>The usage discipline of a replacement policy\<close>

text \<open>
  What a cache does with the policy of one set: on a miss it asks for a victim,
  installs the block in that way and reports the way with \<open>onAccess\<close>; on a hit it
  reports the way that hit.  The two functions run a sequence of such events on the
  circular-counter FIFO policy and on the queue-based one, and return the victims
  chosen, in order.
\<close>

datatype event = Miss | Hit nat

fun fifoCounter_victims :: "ReplacementPolicy \<Rightarrow> nat \<Rightarrow> nat \<Rightarrow> event list \<Rightarrow> nat list" where
  "fifoCounter_victims p s numWays [] = []"
| "fifoCounter_victims p s numWays (Miss # evs) =
     (let (way, p1) = getVictim p s numWays
      in way # fifoCounter_victims (onAccess p1 s way) s numWays evs)"
| "fifoCounter_victims p s numWays (Hit way # evs) =
     fifoCounter_victims (onAccess p s way) s numWays evs"

fun fifoQueue_victims :: "(nat \<rightharpoonup> nat list) \<Rightarrow> nat \<Rightarrow> nat \<Rightarrow> event list \<Rightarrow> nat list" where
  "fifoQueue_victims q s numWays [] = []"
| "fifoQueue_victims q s numWays (Miss # evs) =
     (let (way, q1) = FIFOQueue_getVictim q s numWays
      in way # fifoQueue_victims (FIFOQueue_onAccess q1 s way) s numWays evs)"
| "fifoQueue_victims q s numWays (Hit way # evs) =
     fifoQueue_victims (FIFOQueue_onAccess q s way) s numWays evs"

section \<open>Invariants of a cache level and of an exclusive hierarchy\<close>

text \<open>
  The definitions of this section are not part of the program: they state what the
  proofs about exclusive hierarchies maintain.  \<open>offBits\<close> and \<open>idxBits\<close> are the
  two bit widths of a configuration as natural numbers.
\<close>

definition offBits :: "CacheConfig \<Rightarrow> nat" where
  "offBits cfg = unat (getBlockOffsetBits cfg)"

definition idxBits :: "CacheConfig \<Rightarrow> nat" where
  "idxBits cfg = unat (getIndexBits cfg)"

text \<open>
  A geometry on which the access functions are defined: at least one set and one way
  (so that no vector is indexed out of range) and fewer than 64 offset and index bits
  (so that the shifts of the address reconstruction are defined).
\<close>

definition geometry_ok :: "CacheConfig \<Rightarrow> bool" where
  "geometry_ok cfg \<longleftrightarrow>
     getNumSets cfg \<noteq> 0 \<and> getNumWays cfg \<noteq> 0 \<and> offBits cfg + idxBits cfg < 64"

text \<open>
  What a policy's state must satisfy for \<open>getVictim\<close> to answer with a way below
  \<open>n\<close>: the ways on an LRU list and the FIFO counters are below \<open>n\<close>.
\<close>

fun policy_ok :: "nat \<Rightarrow> ReplacementPolicy \<Rightarrow> bool" where
  "policy_ok n (LRUPolicy lruList) = (\<forall>s l. lruList s = Some l \<longrightarrow> l \<noteq> [] \<and> (\<forall>w \<in> set l. w < n))"
| "policy_ok n (FIFOPolicy circularCounters usedWays) = (\<forall>s k. circularCounters s = Some k \<longrightarrow> k < n)"
| "policy_ok n (RandomPolicy usedWays draws) = True"

text \<open>A row (the ways of one set) holds a tag; no two valid ways of a row hold the same tag.\<close>

definition holds :: "CacheEntry list \<Rightarrow> u64 \<Rightarrow> bool" where
  "holds row t \<longleftrightarrow> (\<exists>w < length row. valid (row ! w) \<and> tag (row ! w) = t)"

definition row_unique :: "CacheEntry list \<Rightarrow> bool" where
  "row_unique row \<longleftrightarrow>
     (\<forall>i < length row. \<forall>j < length row.
        valid (row ! i) \<and> valid (row ! j) \<and> tag (row ! i) = tag (row ! j) \<longrightarrow> i = j)"

text \<open>
  The invariant of one cache level: the entry matrix has the configured shape, every
  row holds each tag at most once, the policy state is in range, and every block held
  is found again under the address reconstructed from its set and tag.
\<close>

definition cache_inv :: "Cache \<Rightarrow> bool" where
  "cache_inv c \<longleftrightarrow>
     getNumSets (config c) \<noteq> 0 \<and> getNumWays (config c) \<noteq> 0 \<and>
     offBits (config c) + idxBits (config c) < 64 \<and>
     length (cacheEntries c) = unat (getNumSets (config c)) \<and>
     (\<forall>row \<in> set (cacheEntries c).
         length row = unat (getNumWays (config c)) \<and> row_unique row) \<and>
     policy_ok (unat (getNumWays (config c))) (policy_st c) \<and>
     (\<forall>s < length (cacheEntries c). \<forall>t. holds (cacheEntries c ! s) t \<longrightarrow>
         getSetAndTag c (blockAddress (config c) s t) = (s, t))"

text \<open>
  The last step of \<open>CacheHierarchy::access\<close> for an exclusive L2, as a function of
  the tracker: the tracked victim is force-installed into L2 unless its address is the
  accessed address.
\<close>

definition victimToL2 :: "EvictionTracker \<Rightarrow> u64 \<Rightarrow> Cache \<Rightarrow> Cache" where
  "victimToL2 trk a l2 =
     (if hasEviction trk \<and> tracker_address trk \<noteq> a
      then snd (forceEntry l2 (tracker_address trk) (tracker_entry trk) Write)
      else l2)"

text \<open>
  The invariant of a two-level hierarchy with an exclusive L2 and equal block offset
  widths: both levels satisfy \<open>cache_inv\<close> and no address is contained in both.
\<close>

definition excl_inv :: "CacheHierarchy \<Rightarrow> bool" where
  "excl_inv h \<longleftrightarrow>
     (\<exists>l1 l2. caches h = [l1, l2] \<and> cache_inv l1 \<and> cache_inv l2 \<and>
        inclusionPolicy (config l2) = Exclusive \<and>
        offBits (config l1) = offBits (config l2) \<and>
        (\<forall>b. \<not> (contains l1 b \<and> contains l2 b)))"

section \<open>Example configurations\<close>

text \<open>
  Small configurations for the concrete runs below.  \<open>scenario1_config\<close> is the
  direct-mapped cache of the repository's direct-mapped test: 256 bytes, 64-byte
  blocks, hence four sets of one way.
\<close>

definition scenario1_config :: CacheConfig where
  "scenario1_config =
     \<lparr>organization = DirectMapped, size_bytes = 256, blockSize = 64, associativity = 1,
      policy = ''LRU'', accessLatency = 1, writeBack = True, writeAllocate = True,
      level = 1, inclusionPolicy = Inclusive\<rparr>"

definition scenario1_trace :: "(u64 \<times> AccessType) list" where
  "scenario1_trace =
     [(0x0, Read), (0x0, Read), (0x100, Read), (0x0, Read), (0x40, Read), (0x100, Read)]"

text \<open>
  The set-associative cache of the LRU scenario: 256 bytes, 64-byte blocks, two ways,
  hence two sets; the addresses 0x0, 0x80 and 0x100 all fall into set 0.
\<close>

definition cfg_sa256 :: CacheConfig where
  "cfg_sa256 =
     \<lparr>organization = SetAssociative, size_bytes = 256, blockSize = 64, associativity = 2,
      policy = ''LRU'', accessLatency = 1, writeBack = True, writeAllocate = True,
      level = 1, inclusionPolicy = Inclusive\<rparr>"

definition scenario2_trace :: "(u64 \<times> AccessType) list" where
  "scenario2_trace =
     [(0x0, Read), (0x80, Read), (0x0, Read), (0x80, Read), (0x100, Read), (0x0, Read),
      (0x80, Read)]"

text \<open>A fully associative L1 of two 64-byte blocks.\<close>

definition cfg_l1_fa128 :: CacheConfig where
  "cfg_l1_fa128 =
     \<lparr>organization = FullyAssociative, size_bytes = 128, blockSize = 64, associativity = 2,
      policy = ''LRU'', accessLatency = 1, writeBack = True, writeAllocate = True,
      level = 1, inclusionPolicy = Inclusive\<rparr>"

text \<open>A direct-mapped L1 of a single 64-byte block, with the given write policies.\<close>

definition cfg_l1_dm64 :: "bool \<Rightarrow> bool \<Rightarrow> CacheConfig" where
  "cfg_l1_dm64 wb wa =
     \<lparr>organization = DirectMapped, size_bytes = 64, blockSize = 64, associativity = 1,
      policy = ''LRU'', accessLatency = 1, writeBack = wb, writeAllocate = wa,
      level = 1, inclusionPolicy = Inclusive\<rparr>"

text \<open>A direct-mapped L2 of four 64-byte blocks, with the given inclusion policy.\<close>

definition cfg_l2_dm256 :: "InclusionPolicy \<Rightarrow> CacheConfig" where
  "cfg_l2_dm256 incl =
     \<lparr>organization = DirectMapped, size_bytes = 256, blockSize = 64, associativity = 1,
      policy = ''LRU'', accessLatency = 10, writeBack = True, writeAllocate = True,
      level = 2, inclusionPolicy = incl\<rparr>"

text \<open>A direct-mapped L2 of two 128-byte blocks, exclusive.\<close>

definition cfg_l2_dm256_b128 :: CacheConfig where
  "cfg_l2_dm256_b128 =
     \<lparr>organization = DirectMapped, size_bytes = 256, blockSize = 128, associativity = 1,
      policy = ''LRU'', accessLatency = 10, writeBack = True, writeAllocate = True,
      level = 2, inclusionPolicy = Exclusive\<rparr>"

text \<open>
  The two levels of the repository's inclusion test: L1 4 KB, 4-way, and L2 8 KB,
  8-way, both with 64-byte blocks and LRU.
\<close>

definition cfg_test_l1 :: CacheConfig where
  "cfg_test_l1 =
     \<lparr>organization = SetAssociative, size_bytes = 4096, blockSize = 64, associativity = 4,
      policy = ''LRU'', accessLatency = 1, writeBack = True, writeAllocate = True,
      level = 1, inclusionPolicy = Inclusive\<rparr>"

definition cfg_test_l2 :: "InclusionPolicy \<Rightarrow> CacheConfig" where
  "cfg_test_l2 incl =
     \<lparr>organization = SetAssociative, size_bytes = 8192, blockSize = 64, associativity = 8,
      policy = ''LRU'', accessLatency = 10, writeBack = True, writeAllocate = True,
      level = 2, inclusionPolicy = incl\<rparr>"



text \<open>A hierarchy of two freshly constructed levels.\<close>

definition twoLevels :: "CacheConfig \<Rightarrow> CacheConfig \<Rightarrow> CacheHierarchy" where
  "twoLevels cfg1 cfg2 =
     addCacheLevel (addCacheLevel CacheHierarchy_new (Cache_init cfg1 [])) (Cache_init cfg2 [])"

text \<open>A write-through L1 over an inclusive L2, after one read of address 0.\<close>

definition wt_hierarchy :: CacheHierarchy where
  "wt_hierarchy =
     runTrace (twoLevels (cfg_l1_dm64 False True) (cfg_l2_dm256 Inclusive)) [(0x0, Read)]"

definition mem100 :: MainMemory where
  "mem100 = \<lparr>memLatency = 100, reads = 1, writes = 0\<rparr>"

lemma examples_construct:
  "Cache_new scenario1_config [] = Inr (Cache_init scenario1_config [])"
  "Cache_new cfg_l1_fa128 [] = Inr (Cache_init cfg_l1_fa128 [])"
  "Cache_new (cfg_l1_dm64 wb wa) [] = Inr (Cache_init (cfg_l1_dm64 wb wa) [])"
  "Cache_new (cfg_l2_dm256 incl) [] = Inr (Cache_init (cfg_l2_dm256 incl) [])"
  "Cache_new cfg_l2_dm256_b128 [] = Inr (Cache_init cfg_l2_dm256_b128 [])"
  "Cache_new cfg_test_l1 [] = Inr (Cache_init cfg_test_l1 [])"
  "Cache_new (cfg_test_l2 incl) [] = Inr (Cache_init (cfg_test_l2 incl) [])"
  by (simp_all add: Cache_new_def zeroDivisor_def scenario1_config_def cfg_l1_fa128_def
      cfg_l1_dm64_def cfg_l2_dm256_def cfg_l2_dm256_b128_def cfg_test_l1_def cfg_test_l2_def)

section \<open>Address decoding is total\<close>

lemma getTag_Some:
  "getTag a B S = Some (if unat B + unat S < 64 then drop_bit (unat B + unat S) a else 0)"
  by (simp add: getTag_def shr_def ADDRESS_WIDTH_def Let_def)

lemma getIndex_Some:
  "getIndex a B S =
     Some (if S = 0 \<or> 64 \<le> unat B then 0
           else if 64 \<le> unat S then drop_bit (unat B) a
           else drop_bit (unat B) a AND (push_bit (unat S) 1 - 1))"
  by (simp add: getIndex_def shr_def shl_def ADDRESS_WIDTH_def)

lemma getBlockOffset_Some:
  "getBlockOffset a B =
     Some (if B = 0 then 0 else if 64 \<le> unat B then a else a AND (push_bit (unat B) 1 - 1))"
  by (simp add: getBlockOffset_def shl_def ADDRESS_WIDTH_def)

text \<open>
  Claim C9.  For every address and all bit widths \<open>B\<close> and \<open>S\<close> (any two \<open>uint8_t\<close>
  values, in particular those with \<open>B + S \<le> 64\<close>, \<open>S = 0\<close> or \<open>B + S = 64\<close>), the
  three decode functions return a value: none of them reaches a shift by 64 or more,
  which the partial shifts \<open>shr\<close> and \<open>shl\<close> would answer with \<open>None\<close>.  With
  \<open>S = 0\<close> the index is 0 and the tag is the address shifted right by \<open>B\<close>.
\<close>

theorem decode_total:
  "(\<exists>t. getTag a B S = Some t) \<and> (\<exists>i. getIndex a B S = Some i) \<and>
   (\<exists>off. getBlockOffset a B = Some off) \<and>
   getIndex a B 0 = Some 0 \<and> getTag a B 0 = Some (drop_bit (unat B) a)"
proof -
  have "drop_bit (unat B) a = 0" if "64 \<le> unat B"
    using that by (simp add: drop_bit_eq_zero_iff_not_bit_last bit_eq_iff bit_simps)
  then show ?thesis
    by (simp add: getTag_Some getIndex_Some getBlockOffset_Some)
qed

text \<open>
  The guards are what makes the decoder total.  The earlier decoder reaches a shift by
  64 at the boundaries: its tag when \<open>B + S = 64\<close>, its index when \<open>S = 64\<close> or
  \<open>B = 64\<close>, its block offset when \<open>B = 64\<close>.
\<close>

lemma unguarded_decoder_partial:
  "getTag_unguarded a 6 58 = None"
  "getIndex_unguarded a 0 64 = None"
  "getIndex_unguarded a 64 0 = None"
  "getBlockOffset_unguarded a 64 = None"
  by (simp_all add: getTag_unguarded_def getIndex_unguarded_def getBlockOffset_unguarded_def
      shr_def shl_def ADDRESS_WIDTH_def)

text \<open>Below the boundary the two decoders agree.\<close>

lemma unguarded_decoder_agrees:
  assumes "unat B + unat S < 64"
  shows "getTag_unguarded a B S = getTag a B S"
    and "getIndex_unguarded a B S = getIndex a B S"
    and "getBlockOffset_unguarded a B = getBlockOffset a B"
proof -
  from assms have b: "unat B < 64" and s: "unat S < 64" by simp_all
  show "getTag_unguarded a B S = getTag a B S"
    using assms by (simp add: getTag_unguarded_def getTag_def ADDRESS_WIDTH_def)
  show "getIndex_unguarded a B S = getIndex a B S"
    using b s
    by (simp add: getIndex_unguarded_def getIndex_def shr_def shl_def ADDRESS_WIDTH_def)
  show "getBlockOffset_unguarded a B = getBlockOffset a B"
    using b
    by (simp add: getBlockOffset_unguarded_def getBlockOffset_def shl_def ADDRESS_WIDTH_def)
qed

section \<open>Properties of the cache operations\<close>

subsection \<open>The bit widths computed from the configuration\<close>

lemma shift_count_bound:
  "temp \<noteq> 0 \<Longrightarrow> count \<le> shift_count temp count \<and> 2 ^ (shift_count temp count - count) \<le> unat temp"
proof (induction temp count rule: shift_count.induct)
  case (1 temp count)
  show ?case
  proof (cases "1 < temp")
    case True
    then have u: "1 < unat temp" by (simp add: word_less_nat_alt)
    have d: "unat (drop_bit 1 temp) = unat temp div 2"
      by (simp add: drop_bit_eq_div unat_div)
    from u d have "unat (drop_bit 1 temp) \<noteq> 0" by simp
    then have nz: "drop_bit 1 temp \<noteq> 0" by auto
    have ih0: "count + 1 \<le> shift_count (drop_bit 1 temp) (count + 1) \<and>
      2 ^ (shift_count (drop_bit 1 temp) (count + 1) - (count + 1)) \<le> unat (drop_bit 1 temp)"
      by (rule "1.IH"[OF True nz])
    have ih: "count + 1 \<le> shift_count (drop_bit 1 temp) (count + 1)"
      "2 ^ (shift_count (drop_bit 1 temp) (count + 1) - (count + 1)) \<le> unat temp div 2"
      using ih0 unfolding d by blast+
    have eq: "shift_count temp count = shift_count (drop_bit 1 temp) (count + 1)"
      using True by (subst shift_count.simps) simp
    let ?k = "shift_count (drop_bit 1 temp) (count + 1)"
    have "?k - count = Suc (?k - (count + 1))" using ih(1) by simp
    then have "(2::nat) ^ (?k - count) = 2 * 2 ^ (?k - (count + 1))" by simp
    also have "\<dots> \<le> 2 * (unat temp div 2)" using ih(2) by simp
    also have "\<dots> \<le> unat temp" by simp
    finally show ?thesis using ih(1) eq by simp
  next
    case False
    then have "\<not> 1 < unat temp" by (simp add: word_less_nat_alt)
    moreover from "1.prems" have "unat temp \<noteq> 0" by (simp add: unat_eq_0)
    ultimately have "unat temp = unat (1::u64)" by simp
    then have "temp = 1" by (simp only: word_unat_eq_iff)
    then show ?thesis by (simp add: shift_count.simps)
  qed
qed

lemma shift_count_less_64: "shift_count temp 0 < 64"
proof (cases "temp = 0")
  case True
  then show ?thesis by (simp add: shift_count.simps)
next
  case False
  from shift_count_bound[OF False, of 0] have "2 ^ shift_count temp 0 \<le> unat temp" by simp
  also have "unat temp < 2 ^ 64" using unsigned_less[of temp] by simp
  finally have "(2::nat) ^ shift_count temp 0 < 2 ^ 64" .
  then show ?thesis by (rule power_less_imp_less_exp[rotated]) simp
qed

lemma offBits_less: "offBits cfg < 64"
proof -
  have "shift_count (blockSize cfg) 0 < 64" by (rule shift_count_less_64)
  then show ?thesis
    by (simp add: offBits_def getBlockOffsetBits_def unat_of_nat)
qed

lemma idxBits_eq:
  "idxBits cfg = (if organization cfg = FullyAssociative then 0 else shift_count (getNumSets cfg) 0)"
proof -
  have "shift_count (getNumSets cfg) 0 < 64" by (rule shift_count_less_64)
  then show ?thesis
    by (simp add: idxBits_def getIndexBits_def unat_of_nat)
qed

lemma idxBits_less: "idxBits cfg < 64"
  using shift_count_less_64[of "getNumSets cfg"] by (simp add: idxBits_eq)

lemma idxBits_pow: "getNumSets cfg \<noteq> 0 \<Longrightarrow> 2 ^ idxBits cfg \<le> unat (getNumSets cfg)"
  using shift_count_bound[of "getNumSets cfg" 0]
  by (auto simp: idxBits_eq getNumSets_def)

lemma getSetAndTag_eq:
  "getSetAndTag c a =
     (unat (take_bit (idxBits (config c)) (drop_bit (offBits (config c)) a)),
      if offBits (config c) + idxBits (config c) < 64
      then drop_bit (offBits (config c) + idxBits (config c)) a else 0)"
proof -
  have m: "2 ^ n - 1 = (mask n :: u64)" for n
    by (simp add: mask_eq_exp_minus_1)
  have z: "getIndexBits (config c) = 0 \<longleftrightarrow> idxBits (config c) = 0"
    by (simp add: idxBits_def unat_eq_0)
  show ?thesis
    using offBits_less[of "config c"] idxBits_less[of "config c"]
    by (auto simp: getSetAndTag_def Let_def getTag_Some getIndex_Some m z take_bit_eq_mask
        offBits_def[symmetric] idxBits_def[symmetric])
qed

lemma split_at_word:
  fixes x y :: u64
  assumes "take_bit n x = take_bit n y" "drop_bit n x = drop_bit n y"
  shows "x = y"
proof -
  have "x = push_bit n (drop_bit n x) + take_bit n x" by (simp add: bits_ident)
  also have "\<dots> = push_bit n (drop_bit n y) + take_bit n y" using assms by simp
  also have "\<dots> = y" by (simp add: bits_ident)
  finally show ?thesis .
qed

lemma same_block_iff:
  assumes "offBits (config c) + idxBits (config c) < 64"
  shows "getSetAndTag c a = getSetAndTag c b \<longleftrightarrow>
           drop_bit (offBits (config c)) a = drop_bit (offBits (config c)) b"
proof
  let ?B = "offBits (config c)" and ?S = "idxBits (config c)"
  assume eq: "getSetAndTag c a = getSetAndTag c b"
  then have t: "take_bit ?S (drop_bit ?B a) = take_bit ?S (drop_bit ?B b)"
    by (simp add: getSetAndTag_eq word_unat_eq_iff)
  from eq assms have d: "drop_bit ?S (drop_bit ?B a) = drop_bit ?S (drop_bit ?B b)"
    by (simp add: getSetAndTag_eq add.commute)
  from t d show "drop_bit ?B a = drop_bit ?B b" by (rule split_at_word)
next
  let ?B = "offBits (config c)" and ?S = "idxBits (config c)"
  assume eq: "drop_bit ?B a = drop_bit ?B b"
  have "drop_bit (?B + ?S) a = drop_bit ?S (drop_bit ?B a)" by (simp add: add.commute)
  moreover have "drop_bit (?B + ?S) b = drop_bit ?S (drop_bit ?B b)" by (simp add: add.commute)
  ultimately show "getSetAndTag c a = getSetAndTag c b"
    using eq by (simp add: getSetAndTag_eq)
qed

lemma blockAddress_eq:
  assumes "offBits cfg + idxBits cfg < 64"
  shows "blockAddress cfg s t =
           push_bit (offBits cfg + idxBits cfg) t OR push_bit (offBits cfg) (of_nat s)"
  using assms offBits_less[of cfg]
  by (simp add: blockAddress_def Let_def shl_def ADDRESS_WIDTH_def offBits_def idxBits_def)

lemma decode_reconstruct:
  assumes bs: "offBits (config c) + idxBits (config c) < 64"
      and st: "getSetAndTag c a = (s, t)"
  shows "getSetAndTag c (blockAddress (config c) s t) = (s, t)"
proof -
  let ?B = "offBits (config c)" and ?S = "idxBits (config c)"
  from st have s: "s = unat (take_bit ?S (drop_bit ?B a))" and t: "t = drop_bit (?B + ?S) a"
    using bs by (simp_all add: getSetAndTag_eq)
  have os: "(of_nat s :: u64) = take_bit ?S (drop_bit ?B a)" by (simp add: s)
  have "drop_bit ?B (blockAddress (config c) s t) = drop_bit ?B a"
    unfolding blockAddress_eq[OF bs] os t
    by (rule bit_eqI) (auto simp: bit_simps dest: bit_imp_le_length)
  then have "getSetAndTag c (blockAddress (config c) s t) = getSetAndTag c a"
    by (simp add: same_block_iff[OF bs])
  with st show ?thesis by simp
qed

lemma set_index_in_range:
  assumes "getNumSets (config c) \<noteq> 0"
  shows "fst (getSetAndTag c a) < unat (getNumSets (config c))"
proof -
  let ?B = "offBits (config c)" and ?S = "idxBits (config c)"
  have "unat (take_bit ?S (drop_bit ?B a)) < 2 ^ ?S"
    by (simp add: unsigned_take_bit_eq)
  also have "\<dots> \<le> unat (getNumSets (config c))" by (rule idxBits_pow[OF assms])
  finally show ?thesis by (simp add: getSetAndTag_eq)
qed

lemma getSetAndTag_config: "config c' = config c \<Longrightarrow> getSetAndTag c' a = getSetAndTag c a"
  by (simp add: getSetAndTag_eq)

subsection \<open>Victims are in range\<close>

lemma firstUnused_less: "firstUnused u n = Some w \<Longrightarrow> w < n"
  by (auto simp: firstUnused_def find_Some_iff)

lemma getVictim_ok:
  assumes "policy_ok n p" "0 < n" "getVictim p s n = (w, p')"
  shows "w < n \<and> policy_ok n p'"
proof (cases p)
  case (LRUPolicy lruList)
  with assms show ?thesis
    by (auto split: option.splits if_splits dest: firstUnused_less)
next
  case (FIFOPolicy circularCounters usedWays)
  with assms show ?thesis
    by (auto simp: Let_def split: option.splits if_splits dest: firstUnused_less)
next
  case (RandomPolicy usedWays draws)
  with assms show ?thesis
    by (auto simp: Let_def split: option.splits if_splits list.splits dest: firstUnused_less)
qed

lemma onAccess_ok:
  assumes "policy_ok n p" "0 < n" "w < n"
  shows "policy_ok n (onAccess p s w)"
proof (cases p)
  case (LRUPolicy lruList)
  with assms show ?thesis
    by (auto split: option.splits if_splits dest: notin_set_remove1)
next
  case (FIFOPolicy circularCounters usedWays)
  with assms show ?thesis
    by (auto simp: Let_def split: option.splits if_splits)
next
  case (RandomPolicy usedWays draws)
  with assms show ?thesis
    by (auto simp: Let_def)
qed

lemma createPolicy_ok: "policy_ok n (createPolicy name draws)"
  by (simp add: createPolicy_def)

subsection \<open>Rows and the invariant of one level\<close>

lemma findEntry_None_iff: "findEntry c s t = None \<longleftrightarrow> \<not> holds (cacheEntries c ! s) t"
  by (auto simp: findEntry_def holds_def find_None_iff)

lemma findEntry_SomeD:
  "findEntry c s t = Some w \<Longrightarrow>
     w < length (cacheEntries c ! s) \<and> valid (cacheEntries c ! s ! w) \<and> tag (cacheEntries c ! s ! w) = t"
  by (auto simp: findEntry_def find_Some_iff)

lemma contains_iff:
  "contains c a \<longleftrightarrow> holds (cacheEntries c ! fst (getSetAndTag c a)) (snd (getSetAndTag c a))"
  by (simp add: contains_def split_def Let_def findEntry_None_iff)

lemma holds_update:
  assumes "w < length row"
  shows "holds (row[w := e]) t \<longleftrightarrow>
           (valid e \<and> tag e = t) \<or> (\<exists>j < length row. j \<noteq> w \<and> valid (row ! j) \<and> tag (row ! j) = t)"
  using assms by (auto simp: holds_def nth_list_update)

lemma holds_updateD:
  "holds (row[w := e]) t \<Longrightarrow> (valid e \<and> tag e = t) \<or> holds row t"
  by (cases "w < length row") (auto simp: holds_update, auto simp: holds_def)

lemma holds_update_self: "w < length row \<Longrightarrow> valid e \<Longrightarrow> holds (row[w := e]) (tag e)"
  by (auto simp: holds_update)

lemma not_holds_replaced:
  assumes "row_unique row" "w < length row" "valid (row ! w)" "\<not> (valid e \<and> tag e = tag (row ! w))"
  shows "\<not> holds (row[w := e]) (tag (row ! w))"
  using assms by (auto simp: holds_update row_unique_def)

lemma row_unique_update:
  assumes "row_unique row" "w < length row"
      and "valid e \<Longrightarrow> \<forall>j < length row. j \<noteq> w \<and> valid (row ! j) \<longrightarrow> tag (row ! j) \<noteq> tag e"
  shows "row_unique (row[w := e])"
  using assms unfolding row_unique_def
  by (auto simp: nth_list_update split: if_splits) 

lemma row_unique_new:
  assumes "row_unique row" "w < length row" "\<not> holds row (tag e)"
  shows "row_unique (row[w := e])"
  using assms by (intro row_unique_update) (auto simp: holds_def)

lemma row_unique_same:
  assumes "row_unique row" "w < length row" "valid (row ! w)" "tag e = tag (row ! w)"
  shows "row_unique (row[w := e])"
  using assms by (intro row_unique_update) (auto simp: row_unique_def)

lemma row_unique_invalid:
  assumes "row_unique row" "w < length row" "\<not> valid e"
  shows "row_unique (row[w := e])"
  using assms by (intro row_unique_update) auto

lemma cache_inv_setD:
  assumes "cache_inv c" "getSetAndTag c a = (s, t)"
  shows "s < length (cacheEntries c)" "length (cacheEntries c ! s) = unat (getNumWays (config c))"
    "row_unique (cacheEntries c ! s)" "0 < unat (getNumWays (config c))"
proof -
  from assms(1) have ns: "getNumSets (config c) \<noteq> 0" by (simp add: cache_inv_def)
  from set_index_in_range[OF ns, of a] assms show s: "s < length (cacheEntries c)"
    by (simp add: cache_inv_def)
  then have "cacheEntries c ! s \<in> set (cacheEntries c)" by simp
  with assms(1) show "length (cacheEntries c ! s) = unat (getNumWays (config c))"
    "row_unique (cacheEntries c ! s)"
    by (auto simp: cache_inv_def)
  from assms(1) show "0 < unat (getNumWays (config c))"
    by (simp add: cache_inv_def unat_gt_0)
qed

text \<open>Replacing one entry of a cache that satisfies the invariant.\<close>

lemma install_inv:
  assumes inv: "cache_inv c" and st: "getSetAndTag c a = (s, t)"
      and w: "w < unat (getNumWays (config c))"
      and c': "config c' = config c" "cacheEntries c' = setEntry c s w e"
              "policy_ok (unat (getNumWays (config c))) (policy_st c')"
      and e: "valid e \<Longrightarrow> tag e = t"
      and fresh: "valid e \<Longrightarrow> \<forall>j < unat (getNumWays (config c)).
                     j \<noteq> w \<and> valid (cacheEntries c ! s ! j) \<longrightarrow> tag (cacheEntries c ! s ! j) \<noteq> t"
  shows "cache_inv c'"
    and "\<And>s' t'. holds (cacheEntries c' ! s') t' \<Longrightarrow>
            holds (cacheEntries c ! s') t' \<or> (valid e \<and> s' = s \<and> t' = t)"
    and "valid e \<Longrightarrow> holds (cacheEntries c' ! s) t"
proof -
  note sd = cache_inv_setD[OF inv st]
  let ?E = "cacheEntries c" and ?row = "cacheEntries c ! s"
  have E': "cacheEntries c' = ?E[s := ?row[w := e]]" by (simp add: c'(2) setEntry_def)
  have wl: "w < length ?row" using w sd(2) by simp
  have ru: "row_unique (?row[w := e])"
    using sd(3) wl fresh e sd(2) by (intro row_unique_update) auto
  show h: "holds (cacheEntries c' ! s') t' \<Longrightarrow>
            holds (cacheEntries c ! s') t' \<or> (valid e \<and> s' = s \<and> t' = t)" for s' t'
    using sd(1) e by (cases "s' = s") (auto simp: E' dest!: holds_updateD)
  show "valid e \<Longrightarrow> holds (cacheEntries c' ! s) t"
    using sd(1) wl e holds_update_self[of w ?row e] by (simp add: E')
  have rows: "\<forall>row \<in> set (cacheEntries c').
         length row = unat (getNumWays (config c)) \<and> row_unique row"
  proof
    fix row assume "row \<in> set (cacheEntries c')"
    then have "row = ?row[w := e] \<or> row \<in> set ?E"
      unfolding E' by (auto dest: set_update_subset_insert[THEN subsetD])
    then show "length row = unat (getNumWays (config c)) \<and> row_unique row"
      using ru sd(2) inv by (auto simp: cache_inv_def)
  qed
  have dec: "\<forall>s' < length (cacheEntries c'). \<forall>t'. holds (cacheEntries c' ! s') t' \<longrightarrow>
         getSetAndTag c' (blockAddress (config c') s' t') = (s', t')"
  proof (intro allI impI)
    fix s' t' assume s': "s' < length (cacheEntries c')" and hd: "holds (cacheEntries c' ! s') t'"
    from h[OF hd] show "getSetAndTag c' (blockAddress (config c') s' t') = (s', t')"
    proof
      assume "holds (cacheEntries c ! s') t'"
      with inv s' show ?thesis
        by (simp add: cache_inv_def E' c'(1) getSetAndTag_config[OF c'(1)])
    next
      assume "valid e \<and> s' = s \<and> t' = t"
      with decode_reconstruct[OF _ st] inv show ?thesis
        by (simp add: cache_inv_def c'(1) getSetAndTag_config[OF c'(1)])
    qed
  qed
  show "cache_inv c'"
    using inv rows dec c'(3) by (simp add: cache_inv_def c'(1) E')
qed

subsection \<open>The cases of the cache operations\<close>

lemma Cache_access_elim:
  assumes "Cache_access c a ty = (r, c')" "getSetAndTag c a = (s, t)"
  obtains
    (Hit) w where "findEntry c s t = Some w" "hit r" "evictedAddress r = None"
      "config c' = config c" "policy_st c' = onAccess (policy_st c) s w"
      "cacheEntries c' =
         (if ty = Write \<and> writeBack (config c)
          then setEntry c s w ((cacheEntries c ! s ! w)\<lparr>dirty := True\<rparr>)
          else cacheEntries c)"
  | (NoAlloc) "findEntry c s t = None" "\<not> hit r" "evictedAddress r = None"
      "\<not> (ty = Read \<or> writeAllocate (config c))"
      "config c' = config c" "policy_st c' = policy_st c" "cacheEntries c' = cacheEntries c"
  | (Alloc) w p where "findEntry c s t = None" "\<not> hit r"
      "ty = Read \<or> writeAllocate (config c)"
      "getVictim (policy_st c) s (length (cacheEntries c ! s)) = (w, p)"
      "config c' = config c" "policy_st c' = onAccess p s w"
      "cacheEntries c' =
         setEntry c s w ((cacheEntries c ! s ! w)\<lparr>valid := True, tag := t,
                            dirty := (ty = Write \<and> writeBack (config c))\<rparr>)"
      "evictedAddress r =
         (if valid (cacheEntries c ! s ! w)
          then Some (blockAddress (config c) s (tag (cacheEntries c ! s ! w))) else None)"
proof (cases "findEntry c s t")
  case (Some w)
  with assms show ?thesis
    by (intro Hit[of w]) (auto simp: Cache_access_def Let_def)
next
  case None
  show ?thesis
  proof (cases "ty = Read \<or> writeAllocate (config c)")
    case False
    with None assms show ?thesis
      by (intro NoAlloc) (auto simp: Cache_access_def Let_def)
  next
    case True
    obtain w p where gv: "getVictim (policy_st c) s (length (cacheEntries c ! s)) = (w, p)"
      by (cases "getVictim (policy_st c) s (length (cacheEntries c ! s))")
    from True have al: "(ty = Read \<or> (ty = Write \<and> writeAllocate (config c)))"
      by (cases ty) auto
    from None assms gv al show ?thesis
      by (intro Alloc[of w p])
         (auto simp: Cache_access_def allocateEntry_def setEntry_def Let_def split: if_splits)
  qed
qed

lemma forceEntry_elim:
  assumes "forceEntry c a e ty = (r, c')" "getSetAndTag c a = (s, t)"
  obtains
    (Present) w e' where "findEntry c s t = Some w" "evictedAddress r = None"
      "config c' = config c" "policy_st c' = onAccess (policy_st c) s w"
      "cacheEntries c' = setEntry c s w e'" "valid e'" "tag e' = t"
  | (Absent) w p e' where "findEntry c s t = None"
      "getVictim (policy_st c) s (length (cacheEntries c ! s)) = (w, p)"
      "config c' = config c" "policy_st c' = onAccess p s w"
      "cacheEntries c' = setEntry c s w e'" "valid e'" "tag e' = t"
      "evictedAddress r = None \<or>
       (valid (cacheEntries c ! s ! w) \<and>
        evictedAddress r = Some (blockAddress (config c) s (tag (cacheEntries c ! s ! w))))"
proof (cases "findEntry c s t")
  case (Some w)
  with assms show ?thesis
    by (intro Present[of w "if ty = Write \<and> writeBack (config c) then e\<lparr>tag := t, valid := True, dirty := True\<rparr> else e\<lparr>tag := t, valid := True\<rparr>"])
       (auto simp: forceEntry_def Let_def)
next
  case None
  obtain w p where gv: "getVictim (policy_st c) s (length (cacheEntries c ! s)) = (w, p)"
    by (cases "getVictim (policy_st c) s (length (cacheEntries c ! s))")
  from None assms gv show ?thesis
    by (intro Absent[of w p "if ty = Write \<and> writeBack (config c) then e\<lparr>tag := t, valid := True, dirty := True\<rparr> else e\<lparr>tag := t, valid := True\<rparr>"])
       (auto simp: forceEntry_def reconstructAddress_def Let_def split: if_splits)
qed

text \<open>
  The counters count the accesses, and the result of \<open>Cache::access\<close> never carries
  an evicted entry.
\<close>

lemma Cache_access_counters:
  assumes "Cache_access c a ty = (r, c')"
  shows "hits c' = (if hit r then hits c + 1 else hits c)"
        "misses c' = (if hit r then misses c else misses c + 1)"
        "evictedEntry r = None"
  using assms
  by (auto simp: Cache_access_def allocateEntry_def Let_def split_def
      split: option.splits if_splits)

subsection \<open>What the cache operations preserve\<close>

lemma cache_inv_fields:
  assumes "cache_inv c" "config c' = config c" "cacheEntries c' = cacheEntries c"
    "policy_ok (unat (getNumWays (config c))) (policy_st c')"
  shows "cache_inv c'"
  using assms by (simp add: cache_inv_def getSetAndTag_config[OF assms(2)])

lemma contains_fields:
  assumes "config c' = config c" "cacheEntries c' = cacheEntries c"
  shows "contains c' b = contains c b"
  using assms by (simp add: contains_iff getSetAndTag_config[OF assms(1)])

lemma victim_gone:
  assumes inv: "cache_inv c" and st: "getSetAndTag c a = (s, t)"
      and nf: "findEntry c s t = None"
      and w: "w < unat (getNumWays (config c))"
      and v: "valid (cacheEntries c ! s ! w)"
      and c': "config c' = config c" "cacheEntries c' = setEntry c s w e"
      and e: "tag e = t"
  shows "\<not> contains c' (blockAddress (config c) s (tag (cacheEntries c ! s ! w)))"
    and "getSetAndTag c (blockAddress (config c) s (tag (cacheEntries c ! s ! w))) \<noteq> getSetAndTag c a"
proof -
  note sd = cache_inv_setD[OF inv st]
  let ?row = "cacheEntries c ! s"
  let ?T = "tag (?row ! w)"
  have wl: "w < length ?row" using w sd(2) by simp
  have hT: "holds ?row ?T" using wl v by (auto simp: holds_def)
  have nt: "\<not> holds ?row t" using nf by (simp add: findEntry_None_iff)
  from hT nt have Tt: "?T \<noteq> t" by auto
  from inv sd(1) hT have dec: "getSetAndTag c (blockAddress (config c) s ?T) = (s, ?T)"
    by (simp add: cache_inv_def)
  show "getSetAndTag c (blockAddress (config c) s ?T) \<noteq> getSetAndTag c a"
    using dec st Tt by simp
  have "\<not> holds (?row[w := e]) ?T"
    using sd(3) wl v e Tt by (intro not_holds_replaced) auto
  then show "\<not> contains c' (blockAddress (config c) s ?T)"
    using sd(1) dec by (simp add: contains_iff getSetAndTag_config[OF c'(1)] c'(2) setEntry_def)
qed

lemma Cache_access_props:
  assumes inv: "cache_inv c" and acc: "Cache_access c a ty = (r, c')"
  shows "cache_inv c'" "config c' = config c"
    "\<And>b. contains c' b \<Longrightarrow> contains c b \<or> getSetAndTag c b = getSetAndTag c a"
    "hit r \<longleftrightarrow> contains c a"
    "hit r \<Longrightarrow> getEntry c' a \<noteq> None"
    "\<And>b. \<not> hit r \<Longrightarrow> \<not> (ty = Read \<or> writeAllocate (config c)) \<Longrightarrow> contains c' b = contains c b"
    "\<And>ev. evictedAddress r = Some ev \<Longrightarrow>
        \<not> contains c' ev \<and> getSetAndTag c ev \<noteq> getSetAndTag c a"
proof -
  obtain s t where st: "getSetAndTag c a = (s, t)" by (cases "getSetAndTag c a")
  note sd = cache_inv_setD[OF inv st]
  let ?NW = "unat (getNumWays (config c))"
  have pk: "policy_ok ?NW (policy_st c)" using inv by (simp add: cache_inv_def)
  have all: "cache_inv c' \<and> config c' = config c \<and>
    (\<forall>b. contains c' b \<longrightarrow> contains c b \<or> getSetAndTag c b = getSetAndTag c a) \<and>
    (hit r \<longleftrightarrow> contains c a) \<and> (hit r \<longrightarrow> getEntry c' a \<noteq> None) \<and>
    (\<forall>b. \<not> hit r \<longrightarrow> \<not> (ty = Read \<or> writeAllocate (config c)) \<longrightarrow> contains c' b = contains c b) \<and>
    (\<forall>ev. evictedAddress r = Some ev \<longrightarrow>
        \<not> contains c' ev \<and> getSetAndTag c ev \<noteq> getSetAndTag c a)"
    using acc st
  proof (cases rule: Cache_access_elim)
    case (Hit w)
    note fe = findEntry_SomeD[OF Hit(1)]
    have w: "w < ?NW" using fe sd(2) by simp
    have pk': "policy_ok ?NW (policy_st c')"
      using onAccess_ok[OF pk sd(4) w] Hit(5) by simp
    have ca: "contains c a" using Hit(1) st by (simp add: contains_def)
    show ?thesis
    proof (cases "ty = Write \<and> writeBack (config c)")
      case False
      with Hit have E: "cacheEntries c' = cacheEntries c" by simp
      have "getEntry c' a \<noteq> None"
        using Hit(1) st by (simp add: getEntry_def getSetAndTag_config[OF Hit(4)] findEntry_def E)
      then show ?thesis
        using cache_inv_fields[OF inv Hit(4) E pk'] contains_fields[OF Hit(4) E] Hit(2,3,4) ca
        by simp
    next
      case True
      let ?e = "(cacheEntries c ! s ! w)\<lparr>dirty := True\<rparr>"
      from True Hit have E: "cacheEntries c' = setEntry c s w ?e" by simp
      have fresh: "\<forall>j < ?NW. j \<noteq> w \<and> valid (cacheEntries c ! s ! j) \<longrightarrow> tag (cacheEntries c ! s ! j) \<noteq> t"
        using sd(3) fe sd(2) by (auto simp: row_unique_def)
      have ii: "cache_inv c'"
        and hh: "\<And>s' t'. holds (cacheEntries c' ! s') t' \<Longrightarrow>
            holds (cacheEntries c ! s') t' \<or> (valid ?e \<and> s' = s \<and> t' = t)"
        and hs: "holds (cacheEntries c' ! s) t"
        using install_inv[OF inv st w Hit(4) E pk', of ] fe fresh by auto
      have c1: "contains c' b \<Longrightarrow> contains c b \<or> getSetAndTag c b = getSetAndTag c a" for b
        using hh[of "fst (getSetAndTag c b)" "snd (getSetAndTag c b)"] st
        by (auto simp: contains_iff getSetAndTag_config[OF Hit(4)] prod_eq_iff)
      have "getEntry c' a \<noteq> None"
        using hs st
        by (auto simp: getEntry_def getSetAndTag_config[OF Hit(4)] findEntry_None_iff split: option.splits)
      then show ?thesis
        using ii Hit(2,3,4) ca c1 by auto
    qed
  next
    case NoAlloc
    have nc: "\<not> contains c a" using NoAlloc(1) st by (simp add: contains_def)
    from pk NoAlloc have pk': "policy_ok ?NW (policy_st c')" by simp
    show ?thesis
      using cache_inv_fields[OF inv NoAlloc(5) NoAlloc(7) pk']
        contains_fields[OF NoAlloc(5) NoAlloc(7)] NoAlloc(2,3,5) nc
      by simp
  next
    case (Alloc w p)
    have nc: "\<not> contains c a" using Alloc(1) st by (simp add: contains_def)
    from getVictim_ok[OF pk sd(4)] Alloc(4) sd(2) have w: "w < ?NW" and pp: "policy_ok ?NW p"
      by auto
    have pk': "policy_ok ?NW (policy_st c')"
      using onAccess_ok[OF pp sd(4) w] Alloc(6) by simp
    let ?e = "(cacheEntries c ! s ! w)\<lparr>valid := True, tag := t,
                            dirty := (ty = Write \<and> writeBack (config c))\<rparr>"
    have fresh: "\<forall>j < ?NW. j \<noteq> w \<and> valid (cacheEntries c ! s ! j) \<longrightarrow> tag (cacheEntries c ! s ! j) \<noteq> t"
      using Alloc(1) sd(2) by (auto simp: findEntry_None_iff holds_def)
    have ii: "cache_inv c'"
      and hh: "\<And>s' t'. holds (cacheEntries c' ! s') t' \<Longrightarrow>
            holds (cacheEntries c ! s') t' \<or> (valid ?e \<and> s' = s \<and> t' = t)"
      using install_inv[OF inv st w Alloc(5) Alloc(7) pk'] fresh by auto
    have c1: "contains c' b \<Longrightarrow> contains c b \<or> getSetAndTag c b = getSetAndTag c a" for b
      using hh[of "fst (getSetAndTag c b)" "snd (getSetAndTag c b)"] st
      by (auto simp: contains_iff getSetAndTag_config[OF Alloc(5)] prod_eq_iff)
    have ev: "\<not> contains c' ev \<and> getSetAndTag c ev \<noteq> getSetAndTag c a"
      if "evictedAddress r = Some ev" for ev
    proof -
      from that Alloc(8) have v: "valid (cacheEntries c ! s ! w)"
        and eq: "ev = blockAddress (config c) s (tag (cacheEntries c ! s ! w))"
        by (auto split: if_splits)
      from victim_gone[OF inv st Alloc(1) w v Alloc(5) Alloc(7)] eq show ?thesis by simp
    qed
    show ?thesis
      using ii Alloc(2,3,5) nc c1 ev by auto
  qed
  from all show "cache_inv c'" "config c' = config c"
    "\<And>b. contains c' b \<Longrightarrow> contains c b \<or> getSetAndTag c b = getSetAndTag c a"
    "hit r \<longleftrightarrow> contains c a"
    "hit r \<Longrightarrow> getEntry c' a \<noteq> None"
    "\<And>b. \<not> hit r \<Longrightarrow> \<not> (ty = Read \<or> writeAllocate (config c)) \<Longrightarrow> contains c' b = contains c b"
    "\<And>ev. evictedAddress r = Some ev \<Longrightarrow>
        \<not> contains c' ev \<and> getSetAndTag c ev \<noteq> getSetAndTag c a"
    by blast+
qed

lemma forceEntry_props:
  assumes inv: "cache_inv c" and fe: "forceEntry c a e ty = (r, c')"
  shows "cache_inv c'" "config c' = config c"
    "\<And>b. contains c' b \<Longrightarrow> contains c b \<or> getSetAndTag c b = getSetAndTag c a"
    "\<And>ev. evictedAddress r = Some ev \<Longrightarrow>
        \<not> contains c' ev \<and> getSetAndTag c ev \<noteq> getSetAndTag c a"
proof -
  obtain s t where st: "getSetAndTag c a = (s, t)" by (cases "getSetAndTag c a")
  note sd = cache_inv_setD[OF inv st]
  let ?NW = "unat (getNumWays (config c))"
  have pk: "policy_ok ?NW (policy_st c)" using inv by (simp add: cache_inv_def)
  have all: "cache_inv c' \<and> config c' = config c \<and>
    (\<forall>b. contains c' b \<longrightarrow> contains c b \<or> getSetAndTag c b = getSetAndTag c a) \<and>
    (\<forall>ev. evictedAddress r = Some ev \<longrightarrow>
        \<not> contains c' ev \<and> getSetAndTag c ev \<noteq> getSetAndTag c a)"
    using fe st
  proof (cases rule: forceEntry_elim)
    case (Present w e')
    note f = findEntry_SomeD[OF Present(1)]
    have w: "w < ?NW" using f sd(2) by simp
    have pk': "policy_ok ?NW (policy_st c')"
      using onAccess_ok[OF pk sd(4) w] Present(4) by simp
    have fresh: "\<forall>j < ?NW. j \<noteq> w \<and> valid (cacheEntries c ! s ! j) \<longrightarrow> tag (cacheEntries c ! s ! j) \<noteq> t"
      using sd(3) f sd(2) by (auto simp: row_unique_def)
    have ii: "cache_inv c'"
      and hh: "\<And>s' t'. holds (cacheEntries c' ! s') t' \<Longrightarrow>
            holds (cacheEntries c ! s') t' \<or> (valid e' \<and> s' = s \<and> t' = t)"
      using install_inv[OF inv st w Present(3) Present(5) pk'] Present(7) fresh by auto
    have c1: "contains c' b \<Longrightarrow> contains c b \<or> getSetAndTag c b = getSetAndTag c a" for b
      using hh[of "fst (getSetAndTag c b)" "snd (getSetAndTag c b)"] st
      by (auto simp: contains_iff getSetAndTag_config[OF Present(3)] prod_eq_iff)
    show ?thesis using ii Present(2,3) c1 by auto
  next
    case (Absent w p e')
    from getVictim_ok[OF pk sd(4)] Absent(2) sd(2) have w: "w < ?NW" and pp: "policy_ok ?NW p"
      by auto
    have pk': "policy_ok ?NW (policy_st c')"
      using onAccess_ok[OF pp sd(4) w] Absent(4) by simp
    have fresh: "\<forall>j < ?NW. j \<noteq> w \<and> valid (cacheEntries c ! s ! j) \<longrightarrow> tag (cacheEntries c ! s ! j) \<noteq> t"
      using Absent(1) sd(2) by (auto simp: findEntry_None_iff holds_def)
    have ii: "cache_inv c'"
      and hh: "\<And>s' t'. holds (cacheEntries c' ! s') t' \<Longrightarrow>
            holds (cacheEntries c ! s') t' \<or> (valid e' \<and> s' = s \<and> t' = t)"
      using install_inv[OF inv st w Absent(3) Absent(5) pk'] Absent(7) fresh by auto
    have c1: "contains c' b \<Longrightarrow> contains c b \<or> getSetAndTag c b = getSetAndTag c a" for b
      using hh[of "fst (getSetAndTag c b)" "snd (getSetAndTag c b)"] st
      by (auto simp: contains_iff getSetAndTag_config[OF Absent(3)] prod_eq_iff)
    have ev: "\<not> contains c' ev \<and> getSetAndTag c ev \<noteq> getSetAndTag c a"
      if "evictedAddress r = Some ev" for ev
    proof -
      from that Absent(8) have v: "valid (cacheEntries c ! s ! w)"
        and eq: "ev = blockAddress (config c) s (tag (cacheEntries c ! s ! w))"
        by auto
      from victim_gone[OF inv st Absent(1) w v Absent(3) Absent(5) Absent(7)] eq
      show ?thesis by simp
    qed
    show ?thesis using ii Absent(3) c1 ev by auto
  qed
  from all show "cache_inv c'" "config c' = config c"
    "\<And>b. contains c' b \<Longrightarrow> contains c b \<or> getSetAndTag c b = getSetAndTag c a"
    "\<And>ev. evictedAddress r = Some ev \<Longrightarrow>
        \<not> contains c' ev \<and> getSetAndTag c ev \<noteq> getSetAndTag c a"
    by blast+
qed

lemma invalidateEntry_props:
  assumes inv: "cache_inv c"
  shows "cache_inv (invalidateEntry c a)" "config (invalidateEntry c a) = config c"
    "\<And>b. contains (invalidateEntry c a) b \<Longrightarrow>
        contains c b \<and> getSetAndTag c b \<noteq> getSetAndTag c a"
proof -
  obtain s t where st: "getSetAndTag c a = (s, t)" by (cases "getSetAndTag c a")
  note sd = cache_inv_setD[OF inv st]
  let ?NW = "unat (getNumWays (config c))"
  let ?c' = "invalidateEntry c a"
  have pk: "policy_ok ?NW (policy_st c)" using inv by (simp add: cache_inv_def)
  have all: "cache_inv ?c' \<and> config ?c' = config c \<and>
    (\<forall>b. contains ?c' b \<longrightarrow> contains c b \<and> getSetAndTag c b \<noteq> getSetAndTag c a)"
  proof (cases "findEntry c s t")
    case None
    then have eq: "?c' = c" using st by (simp add: invalidateEntry_def)
    have "\<not> contains c a" using None st by (simp add: contains_def)
    then have "contains c b \<Longrightarrow> getSetAndTag c b \<noteq> getSetAndTag c a" for b
      by (auto simp: contains_iff)
    then show ?thesis using inv eq by auto
  next
    case (Some w)
    note f = findEntry_SomeD[OF Some]
    have w: "w < ?NW" using f sd(2) by simp
    have cfg: "config ?c' = config c" and E: "cacheEntries ?c' = setEntry c s w CacheEntry_new"
      and pol: "policy_st ?c' = policy_st c"
      using Some st by (simp_all add: invalidateEntry_def)
    have nv: "\<not> valid CacheEntry_new" by (simp add: CacheEntry_new_def)
    have ii: "cache_inv ?c'"
      and hh: "\<And>s' t'. holds (cacheEntries ?c' ! s') t' \<Longrightarrow>
            holds (cacheEntries c ! s') t' \<or> (valid CacheEntry_new \<and> s' = s \<and> t' = t)"
      using install_inv[OF inv st w cfg E] pk pol nv by auto
    have gone: "\<not> holds (cacheEntries ?c' ! s) t"
      using not_holds_replaced[OF sd(3), of w CacheEntry_new] f nv sd(1)
      by (simp add: E setEntry_def)
    have c1: "contains ?c' b \<Longrightarrow> contains c b \<and> getSetAndTag c b \<noteq> getSetAndTag c a" for b
      using hh[of "fst (getSetAndTag c b)" "snd (getSetAndTag c b)"] st nv gone
      by (auto simp: contains_iff getSetAndTag_config[OF cfg])
    show ?thesis using ii cfg c1 by auto
  qed
  from all show "cache_inv ?c'" "config ?c' = config c"
    "\<And>b. contains ?c' b \<Longrightarrow> contains c b \<and> getSetAndTag c b \<noteq> getSetAndTag c a"
    by blast+
qed

lemma contains_same:
  "getSetAndTag c a = getSetAndTag c b \<Longrightarrow> contains c a = contains c b"
  by (simp add: contains_iff)

lemma Cache_init_inv:
  assumes "getNumSets cfg \<noteq> 0" "getNumWays cfg \<noteq> 0" "offBits cfg + idxBits cfg < 64"
  shows "cache_inv (Cache_init cfg draws)" "\<not> contains (Cache_init cfg draws) b"
        "config (Cache_init cfg draws) = cfg"
proof -
  let ?c = "Cache_init cfg draws"
  have nh: "\<not> holds (cacheEntries ?c ! s) t" if "s < length (cacheEntries ?c)" for s t
    using that by (auto simp: Cache_init_def holds_def CacheEntry_new_def)
  show cfg: "config ?c = cfg" by (simp add: Cache_init_def)
  have "row_unique (replicate n CacheEntry_new)" for n
    by (auto simp: row_unique_def CacheEntry_new_def)
  then show "cache_inv ?c"
    using assms nh createPolicy_ok
    by (auto simp: cache_inv_def cfg) (auto simp: Cache_init_def)
  have "fst (getSetAndTag ?c b) < length (cacheEntries ?c)"
    using set_index_in_range[of ?c b] assms(1) by (simp add: cfg) (simp add: Cache_init_def)
  from nh[OF this] show "\<not> contains ?c b" by (simp add: contains_iff)
qed

section \<open>Scenario 1: the direct-mapped conflict\<close>

text \<open>
  One read of a direct-mapped cache of 256 bytes with 64-byte blocks: four rows of one
  way, the set in bits 6 and 7 of the address, the tag from bit 8 on.  The policy only
  ever answers way 0.
\<close>

lemma sc64: "shift_count 64 0 = 6" by (simp add: shift_count.simps)
lemma sc4: "shift_count 4 0 = 2" by (simp add: shift_count.simps)

lemma dm_read:
  assumes cfg: "organization (config c) = DirectMapped" "size_bytes (config c) = 256"
               "blockSize (config c) = 64"
      and E: "cacheEntries c = [[e0], [e1], [e2], [e3]]"
      and pk: "policy_ok 1 (policy_st c)"
      and acc: "Cache_access c a Read = (r, c')"
      and s: "s = unat (take_bit 2 (drop_bit 6 a))" and t: "t = drop_bit 8 a"
  shows "config c' = config c \<and> policy_ok 1 (policy_st c') \<and>
         (if valid ([e0, e1, e2, e3] ! s) \<and> tag ([e0, e1, e2, e3] ! s) = t
          then hit r \<and> cacheEntries c' = cacheEntries c
          else \<not> hit r \<and>
               cacheEntries c' =
                 (cacheEntries c)[s := [([e0, e1, e2, e3] ! s)\<lparr>valid := True, tag := t, dirty := False\<rparr>]])"
proof -
  have ob: "offBits (config c) = 6"
    by (simp add: offBits_def getBlockOffsetBits_def cfg sc64)
  have ns: "getNumSets (config c) = 4" by (simp add: getNumSets_def cfg)
  have ib: "idxBits (config c) = 2"
    by (simp add: idxBits_eq cfg ns sc4)
  have st: "getSetAndTag c a = (s, t)"
    by (simp add: getSetAndTag_eq ob ib s t)
  have s4: "s < 4"
    using take_bit_nat_less_exp[of 2 "unat (drop_bit 6 a)"]
    by (simp add: s unsigned_take_bit_eq)
  then have row: "cacheEntries c ! s = [[e0, e1, e2, e3] ! s]" "length (cacheEntries c ! s) = 1"
    by (auto simp: E less_Suc_eq numeral_eq_Suc)
  from acc st show ?thesis
  proof (cases rule: Cache_access_elim)
    case (Hit w)
    from findEntry_SomeD[OF Hit(1)] row have w: "w = 0" and v: "valid ([e0, e1, e2, e3] ! s)"
      "tag ([e0, e1, e2, e3] ! s) = t" by auto
    from onAccess_ok[OF pk, of 0 s] Hit(5) w have "policy_ok 1 (policy_st c')" by simp
    with Hit v show ?thesis by simp
  next
    case NoAlloc
    then show ?thesis by simp
  next
    case (Alloc w p)
    from getVictim_ok[OF pk _ Alloc(4)[unfolded row(2)]] have w: "w = 0" and pp: "policy_ok 1 p"
      by auto
    from onAccess_ok[OF pp, of 0 s] Alloc(6) w have pk': "policy_ok 1 (policy_st c')" by simp
    from Alloc(1) row have nv: "\<not> (valid ([e0, e1, e2, e3] ! s) \<and> tag ([e0, e1, e2, e3] ! s) = t)"
      by (auto simp: findEntry_None_iff holds_def)
    from Alloc(7) w row have "cacheEntries c' =
        (cacheEntries c)[s := [([e0, e1, e2, e3] ! s)\<lparr>valid := True, tag := t, dirty := False\<rparr>]]"
      by (simp add: setEntry_def)
    with Alloc(2,5) pk' nv show ?thesis by simp
  qed
qed

text \<open>
  Claim C4, as stated, fails.  Addresses \<open>0x0\<close> and \<open>0x100\<close> both decode to set 0
  (tags 0 and 1), so the fourth access (\<open>0x0\<close>) evicts \<open>0x100\<close> again and the sixth
  access misses: the outcomes are not MISS, HIT, MISS, MISS, MISS, HIT and the counters
  are not 2 hits and 4 misses.
\<close>

theorem scenario1_counterexample:
  "(let (outcomes, c) = Cache_run (Cache_init scenario1_config []) scenario1_trace
    in outcomes \<noteq> [False, True, False, False, False, True] \<and> hits c \<noteq> 2 \<and> misses c \<noteq> 4)"
  by code_simp

text \<open>
  Claim C4, amended.  For every direct-mapped configuration of 256 bytes with 64-byte
  blocks (whatever the policy, the write policies and the latency), the six reads on the
  freshly constructed cache produce MISS, HIT, MISS, MISS, MISS, MISS and leave one hit
  and five misses.
\<close>

theorem scenario1_outcomes:
  assumes cfg: "organization cfg = DirectMapped" "size_bytes cfg = 256" "blockSize cfg = 64"
      and new: "Cache_new cfg draws = Inr c"
      and run: "Cache_run c scenario1_trace = (outcomes, c')"
  shows "outcomes = [False, True, False, False, False, False] \<and> hits c' = 1 \<and> misses c' = 5"
proof -
  let ?n = CacheEntry_new
  from new cfg have c: "c = Cache_init cfg draws"
    by (simp add: Cache_new_def zeroDivisor_def split: if_splits)
  have ns: "unat (getNumSets cfg) = 4" "unat (getNumWays cfg) = 1"
    by (simp_all add: getNumSets_def getNumWays_def cfg)
  have rep: "replicate 4 x = [x, x, x, x]" for x :: "CacheEntry list"
    by (simp add: numeral_eq_Suc)
  have c0: "config c = cfg" "cacheEntries c = [[?n], [?n], [?n], [?n]]"
    "policy_ok 1 (policy_st c)" "hits c = 0" "misses c = 0"
    by (simp_all add: c Cache_init_def ns rep createPolicy_ok)
  obtain r1 c1 where a1: "Cache_access c 0x0 Read = (r1, c1)" by (cases "Cache_access c 0x0 Read")
  obtain r2 c2 where a2: "Cache_access c1 0x0 Read = (r2, c2)" by (cases "Cache_access c1 0x0 Read")
  obtain r3 c3 where a3: "Cache_access c2 0x100 Read = (r3, c3)" by (cases "Cache_access c2 0x100 Read")
  obtain r4 c4 where a4: "Cache_access c3 0x0 Read = (r4, c4)" by (cases "Cache_access c3 0x0 Read")
  obtain r5 c5 where a5: "Cache_access c4 0x40 Read = (r5, c5)" by (cases "Cache_access c4 0x40 Read")
  obtain r6 c6 where a6: "Cache_access c5 0x100 Read = (r6, c6)" by (cases "Cache_access c5 0x100 Read")
  from run have res: "outcomes = [hit r1, hit r2, hit r3, hit r4, hit r5, hit r6]" "c' = c6"
    by (simp_all add: scenario1_trace_def a1 a2 a3 a4 a5 a6)
  have k: "organization (config x) = DirectMapped \<and> size_bytes (config x) = 256 \<and>
           blockSize (config x) = 64" if "config x = cfg" for x
    using that cfg by simp
  note k0 = k[OF c0(1)]
  from dm_read[OF k0[THEN conjunct1] k0[THEN conjunct2, THEN conjunct1]
      k0[THEN conjunct2, THEN conjunct2] c0(2) c0(3) a1 refl refl]
  have s1: "config c1 = cfg" "policy_ok 1 (policy_st c1)" "\<not> hit r1"
    "cacheEntries c1 = [[\<lparr>valid = True, dirty = False, tag = 0\<rparr>], [?n], [?n], [?n]]"
    by (simp_all add: c0 CacheEntry_new_def)
  note k1 = k[OF s1(1)]
  from dm_read[OF k1[THEN conjunct1] k1[THEN conjunct2, THEN conjunct1]
      k1[THEN conjunct2, THEN conjunct2] s1(4) s1(2) a2 refl refl]
  have s2: "config c2 = cfg" "policy_ok 1 (policy_st c2)" "hit r2"
    "cacheEntries c2 = [[\<lparr>valid = True, dirty = False, tag = 0\<rparr>], [?n], [?n], [?n]]"
    by (simp_all add: s1 CacheEntry_new_def)
  note k2 = k[OF s2(1)]
  from dm_read[OF k2[THEN conjunct1] k2[THEN conjunct2, THEN conjunct1]
      k2[THEN conjunct2, THEN conjunct2] s2(4) s2(2) a3 refl refl]
  have s3: "config c3 = cfg" "policy_ok 1 (policy_st c3)" "\<not> hit r3"
    "cacheEntries c3 = [[\<lparr>valid = True, dirty = False, tag = 1\<rparr>], [?n], [?n], [?n]]"
    by (simp_all add: s2 CacheEntry_new_def)
  note k3 = k[OF s3(1)]
  from dm_read[OF k3[THEN conjunct1] k3[THEN conjunct2, THEN conjunct1]
      k3[THEN conjunct2, THEN conjunct2] s3(4) s3(2) a4 refl refl]
  have s4: "config c4 = cfg" "policy_ok 1 (policy_st c4)" "\<not> hit r4"
    "cacheEntries c4 = [[\<lparr>valid = True, dirty = False, tag = 0\<rparr>], [?n], [?n], [?n]]"
    by (simp_all add: s3 CacheEntry_new_def)
  note k4 = k[OF s4(1)]
  from dm_read[OF k4[THEN conjunct1] k4[THEN conjunct2, THEN conjunct1]
      k4[THEN conjunct2, THEN conjunct2] s4(4) s4(2) a5 refl refl]
  have s5: "config c5 = cfg" "policy_ok 1 (policy_st c5)" "\<not> hit r5"
    "cacheEntries c5 = [[\<lparr>valid = True, dirty = False, tag = 0\<rparr>],
                        [\<lparr>valid = True, dirty = False, tag = 0\<rparr>], [?n], [?n]]"
    by (simp_all add: s4 CacheEntry_new_def)
  note k5 = k[OF s5(1)]
  from dm_read[OF k5[THEN conjunct1] k5[THEN conjunct2, THEN conjunct1]
      k5[THEN conjunct2, THEN conjunct2] s5(4) s5(2) a6 refl refl]
  have s6: "\<not> hit r6"
    by (simp_all add: s5 CacheEntry_new_def)
  note cnt = Cache_access_counters(1,2)[OF a1] Cache_access_counters(1,2)[OF a2]
    Cache_access_counters(1,2)[OF a3] Cache_access_counters(1,2)[OF a4]
    Cache_access_counters(1,2)[OF a5] Cache_access_counters(1,2)[OF a6]
  show ?thesis
    using cnt by (simp add: res s1(3) s2(3) s3(3) s4(3) s5(3) s6 c0(4,5))
qed

text \<open>The configuration of the repository's direct-mapped test.\<close>

theorem scenario1_outcomes_witness:
  "organization scenario1_config = DirectMapped \<and> size_bytes scenario1_config = 256 \<and>
   blockSize scenario1_config = 64 \<and>
   Cache_new scenario1_config [] = Inr (Cache_init scenario1_config []) \<and>
   fst (Cache_run (Cache_init scenario1_config []) scenario1_trace) =
     [False, True, False, False, False, False] \<and>
   hits (snd (Cache_run (Cache_init scenario1_config []) scenario1_trace)) = 1 \<and>
   misses (snd (Cache_run (Cache_init scenario1_config []) scenario1_trace)) = 5"
proof -
  have f: "organization scenario1_config = DirectMapped" "size_bytes scenario1_config = 256"
    "blockSize scenario1_config = 64"
    by (simp_all add: scenario1_config_def)
  have r: "Cache_run (Cache_init scenario1_config []) scenario1_trace =
      (fst (Cache_run (Cache_init scenario1_config []) scenario1_trace),
       snd (Cache_run (Cache_init scenario1_config []) scenario1_trace))"
    by simp
  from scenario1_outcomes[OF f examples_construct(1) r] f examples_construct(1)
  show ?thesis by blast
qed

section \<open>What Cache::access returns on an evicting miss\<close>

text \<open>
  Claim C5 at a failing input.  A one-block direct-mapped write-back cache holds block
  \<open>0x0\<close>, dirty; a read of \<open>0x40\<close> misses, allocates and displaces it.  The result
  of \<open>Cache::access\<close> carries the evicted address \<open>0x0\<close> but no evicted entry, while
  the result of the inner \<open>allocateEntry\<close> call on the same state does carry the copy
  of the displaced entry.
\<close>

theorem access_drops_evicted_entry:
  "(let c1 = snd (Cache_access (Cache_init (cfg_l1_dm64 True True) []) 0x0 Write);
        (s, t) = getSetAndTag c1 0x40;
        r = fst (Cache_access c1 0x40 Read);
        ra = fst (allocateEntry c1 s t Read)
    in findEntry c1 s t = None \<and>
       cacheEntries c1 ! 0 ! 0 = \<lparr>valid = True, dirty = True, tag = 0\<rparr> \<and>
       \<not> hit r \<and> evictedAddress r = Some 0x0 \<and> evictedEntry r = None \<and>
       evictedEntry ra = Some \<lparr>valid = True, dirty = True, tag = 0\<rparr>)"
  by code_simp

section \<open>The two FIFO policies\<close>

text \<open>
  Claim C6 at a failing input.  One set of two ways, four misses in a row, each victim
  installed and reported with \<open>onAccess\<close>.  Both policies fill ways 0 and 1 and then
  evict way 0.  At the fourth miss the oldest block is the one in way 1: the
  circular-counter policy returns 1, the queue-based policy returns way 0 again, whose
  block was installed last.
\<close>

theorem fifo_variants_differ:
  "fifoCounter_victims (createPolicy ''FIFO'' []) 0 2 [Miss, Miss, Miss, Miss] = [0, 1, 0, 1] \<and>
   fifoQueue_victims Map.empty 0 2 [Miss, Miss, Miss, Miss] = [0, 1, 0, 0]"
  by code_simp

section \<open>Inclusive hierarchies\<close>

text \<open>
  Claim C1 at a failing input.  L1 is fully associative with two blocks, L2 is
  direct-mapped with four sets and Inclusive.  Reading \<open>0x0\<close> and then \<open>0x100\<close>
  puts both blocks in L1; in L2 both map to set 0, so the second read evicts \<open>0x0\<close>
  from L2 during the search of the lower levels, where the evicted address is dropped.
  After the call \<open>0x0\<close> is valid in L1 and not in L2.
\<close>

theorem inclusion_violated:
  "(let h = runTrace (twoLevels cfg_l1_fa128 (cfg_l2_dm256 Inclusive))
              [(0x0, Read), (0x100, Read)]
    in contains (caches h ! 0) 0x0 \<and> \<not> contains (caches h ! 1) 0x0)"
  by code_simp

text \<open>
  The same on the geometry of the repository's inclusion test: block \<open>0x3000\<close> is
  kept hot in L1 while eight other blocks of its set pass through L2.
\<close>

lemma inclusion_violated_test_geometry:
  "(let h = runTrace (twoLevels cfg_test_l1 (cfg_test_l2 Inclusive))
              [(0x3000, Read),
               (0x3400, Read), (0x3000, Read), (0x3800, Read), (0x3000, Read),
               (0x3c00, Read), (0x3000, Read), (0x4000, Read), (0x3000, Read),
               (0x4400, Read), (0x3000, Read), (0x4800, Read), (0x3000, Read),
               (0x4c00, Read), (0x3000, Read), (0x5000, Read)]
    in contains (caches h ! 0) 0x3000 \<and> \<not> contains (caches h ! 1) 0x3000)"
  by code_simp

section \<open>Victim caching under an exclusive L2\<close>

text \<open>
  Claim C3 at a failing input.  L1 is a one-block direct-mapped cache without
  write-allocate, L2 is Exclusive.  After reading \<open>0x0\<close> and \<open>0x40\<close>, L1 holds
  \<open>0x40\<close> (clean) and L2 holds the victim \<open>0x0\<close>.  A write to \<open>0x0\<close> misses L1
  without allocating, hits L2, and the promoted block is force-installed into L1,
  displacing \<open>0x40\<close>.  The displaced block is valid but clean, so \<open>forceEntry\<close>
  reports no evicted address and the block ends up in neither level.
\<close>

theorem clean_victim_of_promotion_lost:
  "(let h1 = runTrace (twoLevels (cfg_l1_dm64 True False) (cfg_l2_dm256 Exclusive))
               [(0x0, Read), (0x40, Read)];
        h2 = snd (CacheHierarchy_access h1 0x0 Write)
    in contains (caches h1 ! 0) 0x40 \<and> contains (caches h1 ! 1) 0x0 \<and>
       contains (caches h2 ! 0) 0x0 \<and>
       \<not> contains (caches h2 ! 0) 0x40 \<and> \<not> contains (caches h2 ! 1) 0x40)"
  by code_simp

section \<open>Bounds on the AMAT\<close>





section \<open>Construction does not validate the geometry\<close>




section \<open>Exclusive hierarchies: at most one copy\<close>

lemma same_block_transfer:
  assumes "cache_inv l1" "cache_inv l2" "offBits (config l1) = offBits (config l2)"
  shows "getSetAndTag l1 x = getSetAndTag l1 y \<longleftrightarrow> getSetAndTag l2 x = getSetAndTag l2 y"
proof -
  from assms(1) have b1: "offBits (config l1) + idxBits (config l1) < 64" by (simp add: cache_inv_def)
  from assms(2) have b2: "offBits (config l2) + idxBits (config l2) < 64" by (simp add: cache_inv_def)
  show ?thesis
    by (simp add: same_block_iff[OF b1] same_block_iff[OF b2] assms(3))
qed

lemma recordEviction_simps:
  "hasEviction (recordEviction l r trk) \<longleftrightarrow> evictedAddress r \<noteq> None \<or> hasEviction trk"
  "tracker_address (recordEviction l r trk) =
     (case evictedAddress r of Some ev \<Rightarrow> ev | None \<Rightarrow> tracker_address trk)"
  by (auto simp: recordEviction_def split: option.splits)

lemma victimToL2_props:
  assumes inv1: "cache_inv l1" and inv2: "cache_inv l2"
      and ob: "offBits (config l1) = offBits (config l2)"
      and ex: "\<forall>b. \<not> (contains l1 b \<and> contains l2 b)"
      and tr: "hasEviction trk \<Longrightarrow> \<not> contains l1 (tracker_address trk)"
  shows "cache_inv (victimToL2 trk a l2)" "config (victimToL2 trk a l2) = config l2"
        "\<forall>b. \<not> (contains l1 b \<and> contains (victimToL2 trk a l2) b)"
proof -
  let ?f = "forceEntry l2 (tracker_address trk) (tracker_entry trk) Write"
  have sp: "?f = (fst ?f, snd ?f)" by simp
  show "cache_inv (victimToL2 trk a l2)" "config (victimToL2 trk a l2) = config l2"
    using forceEntry_props(1,2)[OF inv2 sp] inv2
    by (auto simp: victimToL2_def)
  show "\<forall>b. \<not> (contains l1 b \<and> contains (victimToL2 trk a l2) b)"
  proof (cases "hasEviction trk \<and> tracker_address trk \<noteq> a")
    case False
    then have "victimToL2 trk a l2 = l2" by (auto simp: victimToL2_def)
    then show ?thesis using ex by simp
  next
    case True
    obtain r l2' where fe: "forceEntry l2 (tracker_address trk) (tracker_entry trk) Write = (r, l2')"
      by (cases "forceEntry l2 (tracker_address trk) (tracker_entry trk) Write")
    with True have v: "victimToL2 trk a l2 = l2'" by (simp add: victimToL2_def)
    show ?thesis
    proof (intro allI notI)
      fix b assume b: "contains l1 b \<and> contains (victimToL2 trk a l2) b"
      with forceEntry_props(3)[OF inv2 fe, of b] v
      have "contains l2 b \<or> getSetAndTag l2 b = getSetAndTag l2 (tracker_address trk)" by simp
      then show False
      proof
        assume "contains l2 b" with b ex show False by blast
      next
        assume "getSetAndTag l2 b = getSetAndTag l2 (tracker_address trk)"
        then have "getSetAndTag l1 b = getSetAndTag l1 (tracker_address trk)"
          by (simp add: same_block_transfer[OF inv1 inv2 ob])
        then have "contains l1 (tracker_address trk)"
          using b contains_same by blast
        with tr True show False by simp
      qed
    qed
  qed
qed

lemma access_excl2:
  assumes cs: "caches h = [l1, l2]" and ex: "inclusionPolicy (config l2) = Exclusive"
      and a1: "Cache_access l1 a ty = (r1, l1a)" and a2: "Cache_access l2 a ty = (r2, l2a)"
      and cfg2: "config l2a = config l2"
      and trk0: "trk0 = (evictionTracker h)\<lparr>hasEviction := False\<rparr>"
  shows "caches (snd (CacheHierarchy_access h a ty)) =
     (if hit r1 then [l1a, l2]
      else if hit r2 then
        (case getEntry l2a a of
           Some e \<Rightarrow>
             [snd (forceEntry l1a a e ty),
              victimToL2 (recordEviction (snd (forceEntry l1a a e ty))
                            (fst (forceEntry l1a a e ty)) (recordEviction l1a r1 trk0))
                a (invalidateEntry l2a a)]
         | None \<Rightarrow> [l1a, victimToL2 (recordEviction l1a r1 trk0) a l2a])
      else [l1a, victimToL2 (recordEviction l1a r1 trk0) a
                   (if ty = Read \<or> writeAllocate (config l1a)
                    then invalidateEntry l2a a else l2a)])"
proof -
  have ty: "(ty = Read \<or> ty = Write \<and> P) = (ty = Read \<or> P)" for P
    by (cases ty) auto
  show ?thesis
    using cs ex a1 a2 cfg2
    by (auto simp: CacheHierarchy_access_def Let_def split_def victimToL2_def trk0 ty
        split: option.splits)
qed

lemma excl_inv_step:
  assumes "excl_inv h"
  shows "excl_inv (snd (CacheHierarchy_access h a ty))"
proof -
  from assms obtain l1 l2 where cs: "caches h = [l1, l2]"
    and inv1: "cache_inv l1" and inv2: "cache_inv l2"
    and ex: "inclusionPolicy (config l2) = Exclusive"
    and ob: "offBits (config l1) = offBits (config l2)"
    and dis: "\<forall>b. \<not> (contains l1 b \<and> contains l2 b)"
    by (auto simp: excl_inv_def)
  obtain r1 l1a where a1: "Cache_access l1 a ty = (r1, l1a)" by (cases "Cache_access l1 a ty")
  obtain r2 l2a where a2: "Cache_access l2 a ty = (r2, l2a)" by (cases "Cache_access l2 a ty")
  note p1 = Cache_access_props[OF inv1 a1]
  note p2 = Cache_access_props[OF inv2 a2]
  define trk0 where "trk0 = (evictionTracker h)\<lparr>hasEviction := False\<rparr>"
  define trk1 where "trk1 = recordEviction l1a r1 trk0"
  note eq = access_excl2[OF cs ex a1 a2 p2(2) trk0_def, folded trk1_def]
  have ob1: "offBits (config l1a) = offBits (config l2)" using ob p1(2) by simp
  have sb12: "getSetAndTag l1 x = getSetAndTag l1 y \<longleftrightarrow> getSetAndTag l2 x = getSetAndTag l2 y" for x y
    by (rule same_block_transfer[OF inv1 inv2 ob])
  have t1: "\<not> contains l1a (tracker_address trk1) \<and>
            getSetAndTag l1 (tracker_address trk1) \<noteq> getSetAndTag l1 a" if "hasEviction trk1"
    using that p1(7) by (auto simp: trk1_def trk0_def recordEviction_simps split: option.splits)
  \<comment> \<open>the final state in each case: L1, L2 and the facts needed for the invariant\<close>
  have fin: "\<exists>m1 m2. caches (snd (CacheHierarchy_access h a ty)) = [m1, m2] \<and>
      cache_inv m1 \<and> cache_inv m2 \<and> config m1 = config l1 \<and> config m2 = config l2 \<and>
      (\<forall>b. \<not> (contains m1 b \<and> contains m2 b))"
  proof (cases "hit r1")
    case True
    then have ca: "contains l1 a" using p1(4) by simp
    have "contains l1a b \<Longrightarrow> contains l1 b" for b
      using p1(3)[of b] ca contains_same[of l1 b a] by auto
    with dis have "\<forall>b. \<not> (contains l1a b \<and> contains l2 b)" by blast
    with True eq p1(1,2) inv2 show ?thesis by simp
  next
    case m1: False
    then have nca: "\<not> contains l1 a" using p1(4) by simp
    show ?thesis
    proof (cases "hit r2")
      case True
      then obtain e where ge: "getEntry l2a a = Some e" using p2(5) by auto
      obtain rf l1b where fe: "forceEntry l1a a e ty = (rf, l1b)"
        by (cases "forceEntry l1a a e ty")
      note pf = forceEntry_props[OF p1(1) fe]
      note pi = invalidateEntry_props[OF p2(1), of a]
      define trk2 where "trk2 = recordEviction l1b rf trk1"
      have res: "caches (snd (CacheHierarchy_access h a ty)) =
                   [l1b, victimToL2 trk2 a (invalidateEntry l2a a)]"
        using eq m1 True ge fe by (simp add: trk2_def)
      have t2: "\<not> contains l1b (tracker_address trk2)" if "hasEviction trk2"
      proof (cases "evictedAddress rf")
        case (Some ev)
        with pf(4)[OF Some] show ?thesis by (simp add: trk2_def recordEviction_simps)
      next
        case None
        with that have h1: "hasEviction trk1" and ad: "tracker_address trk2 = tracker_address trk1"
          by (simp_all add: trk2_def recordEviction_simps)
        from t1[OF h1] pf(3)[of "tracker_address trk1"] p1(2)
        show ?thesis
          by (auto simp: ad getSetAndTag_config[OF p1(2)])
      qed
      have d2: "\<forall>b. \<not> (contains l1b b \<and> contains (invalidateEntry l2a a) b)"
      proof (intro allI notI)
        fix b assume b: "contains l1b b \<and> contains (invalidateEntry l2a a) b"
        with pi(3)[of b] have c2: "contains l2a b" and ns: "getSetAndTag l2a b \<noteq> getSetAndTag l2a a"
          by auto
        from ns have ns2: "getSetAndTag l2 b \<noteq> getSetAndTag l2 a"
          by (simp add: getSetAndTag_config[OF p2(2)])
        with p2(3)[OF c2] have cl2: "contains l2 b" by simp
        from ns2 have ns1: "getSetAndTag l1 b \<noteq> getSetAndTag l1 a" by (simp add: sb12)
        from b pf(3)[of b] ns1 have "contains l1a b"
          by (auto simp: getSetAndTag_config[OF p1(2)])
        with p1(3)[of b] ns1 have "contains l1 b" by auto
        with cl2 dis show False by blast
      qed
      have ob2: "offBits (config l1b) = offBits (config (invalidateEntry l2a a))"
        using ob pf(2) p1(2) pi(2) p2(2) by simp
      note pv = victimToL2_props[OF pf(1) pi(1) ob2 d2 t2, of a]
      show ?thesis
        using res pf(1,2) p1(2) pv pi(2) p2(2) by simp
    next
      case m2: False
      then have nc2: "\<not> contains l2 a" using p2(4) by simp
      define l2b where "l2b = (if ty = Read \<or> writeAllocate (config l1a)
                               then invalidateEntry l2a a else l2a)"
      have res: "caches (snd (CacheHierarchy_access h a ty)) = [l1a, victimToL2 trk1 a l2b]"
        using eq m1 m2 by (simp add: l2b_def)
      note pi = invalidateEntry_props[OF p2(1), of a]
      have i2: "cache_inv l2b" and c2: "config l2b = config l2"
        using pi(1,2) p2(1,2) by (auto simp: l2b_def)
      have d2: "\<forall>b. \<not> (contains l1a b \<and> contains l2b b)"
      proof (intro allI notI)
        fix b assume b: "contains l1a b \<and> contains l2b b"
        show False
        proof (cases "ty = Read \<or> writeAllocate (config l1a)")
          case True
          with b pi(3)[of b] have cb: "contains l2a b"
            and ns: "getSetAndTag l2a b \<noteq> getSetAndTag l2a a"
            by (auto simp: l2b_def)
          from ns have ns2: "getSetAndTag l2 b \<noteq> getSetAndTag l2 a"
            by (simp add: getSetAndTag_config[OF p2(2)])
          with p2(3)[OF cb] have cl2: "contains l2 b" by simp
          from ns2 have ns1: "getSetAndTag l1 b \<noteq> getSetAndTag l1 a" by (simp add: sb12)
          with b p1(3)[of b] have "contains l1 b" by auto
          with cl2 dis show False by blast
        next
          case False
          then have na: "\<not> (ty = Read \<or> writeAllocate (config l1))" using p1(2) by simp
          from b have cb: "contains l2a b" using False by (simp add: l2b_def)
          from p1(6)[OF m1 na, of b] b have c1: "contains l1 b" by simp
          from p2(3)[OF cb] show False
          proof
            assume "contains l2 b" with c1 dis show False by blast
          next
            assume "getSetAndTag l2 b = getSetAndTag l2 a"
            then have "getSetAndTag l1 b = getSetAndTag l1 a" by (simp add: sb12)
            with c1 nca contains_same[of l1 b a] show False by simp
          qed
        qed
      qed
      have ob2: "offBits (config l1a) = offBits (config l2b)" using ob1 c2 by simp
      have t1': "hasEviction trk1 \<Longrightarrow> \<not> contains l1a (tracker_address trk1)"
        using t1 by simp
      note pv = victimToL2_props[OF p1(1) i2 ob2 d2 t1', of a]
      show ?thesis
        using res p1(1,2) pv c2 by simp
    qed
  qed
  then show ?thesis
    using ex ob by (auto simp: excl_inv_def)
qed

lemma excl_inv_runTrace: "excl_inv h \<Longrightarrow> excl_inv (runTrace h tr)"
proof (induction tr arbitrary: h)
  case Nil
  then show ?case by simp
next
  case (Cons x tr)
  obtain a ty where x: "x = (a, ty)" by (cases x)
  from Cons.prems have "excl_inv (snd (CacheHierarchy_access h a ty))" by (rule excl_inv_step)
  from Cons.IH[OF this] show ?case by (simp add: x)
qed

lemma geometry_ok_constructs:
  assumes "geometry_ok cfg"
  shows "Cache_new cfg draws = Inr (Cache_init cfg draws)"
proof -
  from assms have "getNumSets cfg \<noteq> 0" "getNumWays cfg \<noteq> 0" by (simp_all add: geometry_ok_def)
  then have "\<not> zeroDivisor cfg"
    by (cases "organization cfg") (auto simp: zeroDivisor_def getNumSets_def getNumWays_def)
  then show ?thesis by (simp add: Cache_new_def)
qed


text \<open>
  Claim C2, as stated, fails when the two levels have different block sizes.  L1 holds
  one 64-byte block, L2 (Exclusive) has 128-byte blocks.  After reading \<open>0x40\<close> and
  then \<open>0x0\<close>, L1 holds the block of \<open>0x0\<close>, and the victim \<open>0x40\<close> was installed
  in L2, where it is the 128-byte block that also covers \<open>0x0\<close>: the accessed
  address is valid in both levels.
\<close>

theorem exclusive_double_copy_counterexample:
  "(let h = runTrace (twoLevels (cfg_l1_dm64 True True) cfg_l2_dm256_b128)
              [(0x40, Read), (0x0, Read)]
    in contains (caches h ! 0) 0x0 \<and> contains (caches h ! 1) 0x0)"
  by code_simp

text \<open>
  Claim C2, amended.  Take two freshly constructed levels with the same block size, each
  with a geometry on which the accesses are defined, L2 configured Exclusive, any
  replacement policies and any outcomes of the random device.  After every trace of
  accesses, no address is valid in both levels; in particular the block of the address
  accessed last is valid in at most one of them.
\<close>

theorem exclusive_no_double_copy:
  assumes c1: "Cache_new cfg1 draws1 = Inr l1" and c2: "Cache_new cfg2 draws2 = Inr l2"
      and g1: "geometry_ok cfg1" and g2: "geometry_ok cfg2"
      and ex: "inclusionPolicy cfg2 = Exclusive"
      and bs: "blockSize cfg1 = blockSize cfg2"
      and h: "h = runTrace (addCacheLevel (addCacheLevel CacheHierarchy_new l1) l2) tr"
  shows "\<not> (contains (caches h ! 0) b \<and> contains (caches h ! 1) b)"
proof -
  from c1 geometry_ok_constructs[OF g1, of draws1] have l1: "l1 = Cache_init cfg1 draws1" by simp
  from c2 geometry_ok_constructs[OF g2, of draws2] have l2: "l2 = Cache_init cfg2 draws2" by simp
  from g1 have g1': "getNumSets cfg1 \<noteq> 0" "getNumWays cfg1 \<noteq> 0" "offBits cfg1 + idxBits cfg1 < 64"
    by (simp_all add: geometry_ok_def)
  from g2 have g2': "getNumSets cfg2 \<noteq> 0" "getNumWays cfg2 \<noteq> 0" "offBits cfg2 + idxBits cfg2 < 64"
    by (simp_all add: geometry_ok_def)
  have i1: "cache_inv l1" "\<And>x. \<not> contains l1 x" "config l1 = cfg1"
    unfolding l1 by (rule Cache_init_inv[OF g1'])+
  have i2: "cache_inv l2" "config l2 = cfg2"
    unfolding l2 by (rule Cache_init_inv[OF g2'])+
  have ob: "offBits cfg1 = offBits cfg2"
    using bs by (simp add: offBits_def getBlockOffsetBits_def)
  have "excl_inv (addCacheLevel (addCacheLevel CacheHierarchy_new l1) l2)"
    using i1 i2 ex ob by (simp add: excl_inv_def addCacheLevel_def CacheHierarchy_new_def)
  then have "excl_inv h" unfolding h by (rule excl_inv_runTrace)
  then show ?thesis by (auto simp: excl_inv_def)
qed

text \<open>
  An instance: a one-block L1 over a four-block exclusive L2, after reading \<open>0x0\<close>,
  \<open>0x40\<close> and \<open>0x0\<close> again (a miss in both, a miss with a victim, an L2 hit with
  promotion).
\<close>

theorem exclusive_no_double_copy_witness:
  "Cache_new (cfg_l1_dm64 True True) [] = Inr (Cache_init (cfg_l1_dm64 True True) []) \<and>
   Cache_new (cfg_l2_dm256 Exclusive) [] = Inr (Cache_init (cfg_l2_dm256 Exclusive) []) \<and>
   geometry_ok (cfg_l1_dm64 True True) \<and> geometry_ok (cfg_l2_dm256 Exclusive) \<and>
   inclusionPolicy (cfg_l2_dm256 Exclusive) = Exclusive \<and>
   blockSize (cfg_l1_dm64 True True) = blockSize (cfg_l2_dm256 Exclusive) \<and>
   \<not> (contains (caches (runTrace (twoLevels (cfg_l1_dm64 True True) (cfg_l2_dm256 Exclusive))
                          [(0x0, Read), (0x40, Read), (0x0, Read)]) ! 0) 0x0 \<and>
      contains (caches (runTrace (twoLevels (cfg_l1_dm64 True True) (cfg_l2_dm256 Exclusive))
                          [(0x0, Read), (0x40, Read), (0x0, Read)]) ! 1) 0x0)"
proof -
  have g1: "geometry_ok (cfg_l1_dm64 True True)" by code_simp
  have g2: "geometry_ok (cfg_l2_dm256 Exclusive)" by code_simp
  have ex: "inclusionPolicy (cfg_l2_dm256 Exclusive) = Exclusive"
    by (simp add: cfg_l2_dm256_def)
  have bs: "blockSize (cfg_l1_dm64 True True) = blockSize (cfg_l2_dm256 Exclusive)"
    by (simp add: cfg_l1_dm64_def cfg_l2_dm256_def)
  note c = examples_construct(3)[of True True] examples_construct(4)[of Exclusive]
  from exclusive_no_double_copy[OF c g1 g2 ex bs, of _ "[(0x0, Read), (0x40, Read), (0x0, Read)]" "0x0"]
  have "\<not> (contains (caches (runTrace (twoLevels (cfg_l1_dm64 True True) (cfg_l2_dm256 Exclusive))
                          [(0x0, Read), (0x40, Read), (0x0, Read)]) ! 0) 0x0 \<and>
      contains (caches (runTrace (twoLevels (cfg_l1_dm64 True True) (cfg_l2_dm256 Exclusive))
                          [(0x0, Read), (0x40, Read), (0x0, Read)]) ! 1) 0x0)"
    by (simp add: twoLevels_def)
  with c g1 g2 ex bs show ?thesis by blast
qed

section \<open>An L1 hit touches nothing below L1\<close>

text \<open>
  Claim C10.  In a hierarchy of at least one level, when the L1 access hits,
  \<open>CacheHierarchy::access\<close> returns L1's access
  latency and \<open>true\<close>; every cache below L1 is the same value as before (entries,
  counters and policy state), and the simulation loop does not touch main memory.
  This holds for reads and writes and whatever L1's write policy is, so a write hit
  in a write-through L1 propagates nothing.
\<close>

theorem l1_hit_frame:
  assumes "caches h \<noteq> []" "hit (fst (Cache_access (caches h ! 0) a ty))"
  shows "fst (CacheHierarchy_access h a ty) = (accessLatency (config (caches h ! 0)), True) \<and>
         drop 1 (caches (snd (CacheHierarchy_access h a ty))) = drop 1 (caches h) \<and>
         snd (snd (processAccess (h, m) a ty)) = m"
proof -
  obtain r l1 where acc: "Cache_access (caches h ! 0) a ty = (r, l1)"
    by (cases "Cache_access (caches h ! 0) a ty")
  with assms(2) have hit: "hit r" by simp
  have lat: "latency r = accessLatency (config (caches h ! 0))"
    using acc hit
    by (auto simp: Cache_access_def Let_def split_def split: option.splits if_splits)
  have res: "CacheHierarchy_access h a ty =
      ((latency r, True),
       \<lparr>caches = (caches h)[0 := l1],
        evictionTracker =
          (if length (caches h) > 1 \<and> inclusionPolicy (config (caches h ! 1)) = Exclusive
           then recordEviction l1 r ((evictionTracker h)\<lparr>hasEviction := False\<rparr>)
           else (evictionTracker h)\<lparr>hasEviction := False\<rparr>)\<rparr>)"
    using acc hit by (simp add: CacheHierarchy_access_def Let_def)
  show ?thesis
    by (simp add: res lat processAccess_def drop_update_cancel)
qed

text \<open>A write hit in a write-through L1 (\<open>writeBack = false\<close>) over an inclusive L2.\<close>

theorem l1_hit_frame_witness:
  "caches wt_hierarchy \<noteq> [] \<and>
   hit (fst (Cache_access (caches wt_hierarchy ! 0) 0x0 Write)) \<and>
   fst (CacheHierarchy_access wt_hierarchy 0x0 Write) =
     (accessLatency (config (caches wt_hierarchy ! 0)), True) \<and>
   drop 1 (caches (snd (CacheHierarchy_access wt_hierarchy 0x0 Write))) =
     drop 1 (caches wt_hierarchy) \<and>
   snd (snd (processAccess (wt_hierarchy, mem100) 0x0 Write)) = mem100"
proof -
  have "length (caches wt_hierarchy) = 2"
    by code_simp
  then have n: "caches wt_hierarchy \<noteq> []"
    by auto
  have p: "hit (fst (Cache_access (caches wt_hierarchy ! 0) 0x0 Write))"
    by code_simp
  from l1_hit_frame[OF n p, of mem100] n p show ?thesis
    by blast
qed

section \<open>Further scenarios and invariants of one level\<close>

text \<open>
  The LRU scenario: in a two-way set, after the reads of 0x0, 0x80, 0x0, 0x80 the read
  of 0x100 evicts 0x0, the least recently used block; the read of 0x0 then evicts
  0x80, and the read of 0x80 evicts 0x100.
\<close>

lemma scenario2_lru_eviction_order:
  "fst (Cache_run (Cache_init cfg_sa256 []) scenario2_trace)
   = [False, False, True, True, False, False, False]"
  by code_simp

text \<open>
  The write-back scenario: after a read and a write of 0x0 the block is dirty; the
  read of 0x100, which maps to the same set, misses, reports a write-back and the
  evicted address 0x0.
\<close>

lemma scenario3_dirty_eviction:
  "(let c = snd (Cache_run (Cache_init scenario1_config []) [(0x0, Read), (0x0, Write)]);
        r = fst (Cache_access c 0x100 Read)
    in \<not> hit r \<and> writeBack_res r \<and> evictedAddress r = Some 0x0)"
  by code_simp

text \<open>
  The exclusive scenario on the geometry of the repository's exclusion test: the block
  0x1000 is first only in L1; four more blocks of the same L1 set push it out of L1
  and into L2; the next read of 0x1000 hits in the hierarchy and moves the block back
  to L1 and out of L2.
\<close>

lemma scenario5_exclusive_victim_caching:
  "(let h1 = runTrace (twoLevels cfg_test_l1 (cfg_test_l2 Exclusive)) [(0x1000, Read)];
        h2 = runTrace h1 [(0x1400, Read), (0x1800, Read), (0x1c00, Read), (0x2000, Read)];
        (res, h3) = CacheHierarchy_access h2 0x1000 Read
    in contains (caches h1 ! 0) 0x1000 \<and> \<not> contains (caches h1 ! 1) 0x1000 \<and>
       \<not> contains (caches h2 ! 0) 0x1000 \<and> contains (caches h2 ! 1) 0x1000 \<and>
       snd res \<and>
       contains (caches h3 ! 0) 0x1000 \<and> \<not> contains (caches h3 ! 1) 0x1000)"
  by code_simp

text \<open>
  The AMAT scenario: hit rates 0.8 and 0.5, latencies 1 and 10, memory latency 100 give
  \<open>1 + 0.2 * (10 + 0.5 * 100) = 13\<close>.
\<close>

lemma scenario6_amat: "totalAMAT [(4/5, 1), (1/2, 10)] 100 = Inr 13"
  by (simp add: totalAMAT_def)

text \<open>
  Every access counts as exactly one hit or one miss: after a run the two counters
  have grown together by the number of accesses (modulo \<open>2^64\<close>, as the counters are
  \<open>uint64_t\<close>).
\<close>

lemma counters_count_accesses:
  "length (fst (Cache_run c tr)) = length tr \<and>
   hits (snd (Cache_run c tr)) + misses (snd (Cache_run c tr)) =
     hits c + misses c + of_nat (length tr)"
proof (induction tr arbitrary: c)
  case Nil
  then show ?case by simp
next
  case (Cons x tr)
  obtain a ty where x: "x = (a, ty)" by (cases x)
  obtain r c1 where acc: "Cache_access c a ty = (r, c1)" by (cases "Cache_access c a ty")
  have "hits c1 + misses c1 = hits c + misses c + 1"
    using Cache_access_counters(1,2)[OF acc] by simp
  with Cons.IH[of c1] show ?case
    by (simp add: x acc split_def Let_def add.assoc)
qed

text \<open>The invariant of one level is kept by every run.\<close>

lemma cache_inv_run:
  "cache_inv c \<Longrightarrow> cache_inv (snd (Cache_run c tr))"
proof (induction tr arbitrary: c)
  case Nil
  then show ?case by simp
next
  case (Cons x tr)
  obtain a ty where x: "x = (a, ty)" by (cases x)
  obtain r c1 where acc: "Cache_access c a ty = (r, c1)" by (cases "Cache_access c a ty")
  from Cache_access_props(1)[OF Cons.prems acc] have "cache_inv c1" .
  from Cons.IH[OF this] show ?case by (simp add: x acc split_def Let_def)
qed

text \<open>
  Set uniqueness: in a freshly constructed cache of a sound geometry, after any run, no
  set holds two valid entries with the same tag.
\<close>

lemma set_uniqueness:
  assumes "geometry_ok cfg" "Cache_new cfg draws = Inr c"
  shows "list_all row_unique (cacheEntries (snd (Cache_run c tr)))"
proof -
  from assms have c: "c = Cache_init cfg draws"
    using geometry_ok_constructs[OF assms(1), of draws] by simp
  from assms(1) have "cache_inv c"
    unfolding c by (intro Cache_init_inv) (simp_all add: geometry_ok_def)
  then have "cache_inv (snd (Cache_run c tr))" by (rule cache_inv_run)
  then show ?thesis by (simp add: cache_inv_def list_all_iff)
qed

lemma set_uniqueness_example:
  "list_all row_unique (cacheEntries (snd (Cache_run (Cache_init cfg_sa256 []) scenario2_trace)))"
proof -
  have g: "geometry_ok cfg_sa256" by code_simp
  show ?thesis by (rule set_uniqueness[OF g geometry_ok_constructs[OF g]])
qed

end
